theory Spec2Isabelle
  imports Main "HOL-Library.Word" "HOL-Library.Multiset"
begin

section \<open>The block pool allocator of pool\_alloc.h / pool\_alloc.c\<close>

text \<open>
  The three operations \<open>pool_init\<close>, \<open>pool_malloc\<close> and \<open>pool_free\<close> act on five
  static variables. They are embedded as functions on a record of these variables.

  Conventions of the embedding.
  \<^item> C unsigned integers are natural numbers; a conversion to a narrower type is written
    as \<open>mod\<close>. A \<open>size_t\<close> argument is any natural number (below \<open>2 ^ 64\<close> on the
    platforms the code is written for).
  \<^item> An array is a function from its index, the byte array \<open>g_pool_heap\<close> a function
    from the byte offset to the byte.
  \<^item> A pointer is \<open>NULL\<close> or \<open>Heap off\<close>, the address \<open>off\<close> bytes after the start
    of \<open>g_pool_heap\<close>; no other pointer is ever formed by the three operations.
  \<^item> An operation returns \<open>None\<close> where the C program reads or writes outside
    \<open>g_pool_heap\<close>, outside \<open>freelist_head_arr\<close>, outside the caller's array, or through
    a null pointer: its behaviour is undefined there.
\<close>

subsection \<open>Constants and the packed header\<close>

abbreviation (input) HEAP_SIZE :: nat where "HEAP_SIZE \<equiv> 65536"
abbreviation (input) MAX_BLOCK_SIZE_COUNT :: nat where "MAX_BLOCK_SIZE_COUNT \<equiv> 255"
abbreviation (input) METADATA_LENGTH :: nat where "METADATA_LENGTH \<equiv> 3"
abbreviation (input) UINT16_MAX :: nat where "UINT16_MAX \<equiv> 65535"

text \<open>The macro \<open>MAX(x, y) (((x) > (y)) ? (x) : (y))\<close>.\<close>

definition MAX_of :: "nat \<Rightarrow> nat \<Rightarrow> nat" where
  "MAX_of x y = (if x > y then x else y)"

datatype ptr = NULL | Heap nat

type_synonym heap = "nat \<Rightarrow> nat"

text \<open>
  \<open>struct metadata\<close> is packed: \<open>next_freelist_offset\<close> (16 bits) occupies the bytes
  \<open>a\<close> and \<open>a + 1\<close> of a header at offset \<open>a\<close>, \<open>partition_number\<close> (8 bits) the byte
  \<open>a + 2\<close>. The 16-bit field is read and written low byte first; the byte order cannot
  be observed through the three operations.
\<close>

definition get_next_freelist_offset :: "heap \<Rightarrow> nat \<Rightarrow> nat" where
  "get_next_freelist_offset h a = h a mod 256 + 256 * (h (a + 1) mod 256)"

definition set_next_freelist_offset :: "heap \<Rightarrow> nat \<Rightarrow> nat \<Rightarrow> heap" where
  "set_next_freelist_offset h a v = h(a := v mod 256, a + 1 := (v div 256) mod 256)"

definition get_partition_number :: "heap \<Rightarrow> nat \<Rightarrow> nat" where
  "get_partition_number h a = h (a + 2) mod 256"

definition set_partition_number :: "heap \<Rightarrow> nat \<Rightarrow> nat \<Rightarrow> heap" where
  "set_partition_number h a v = h(a + 2 := v mod 256)"

subsection \<open>The static state\<close>

record pool_state =
  g_pool_heap :: heap
  freelist_head_arr :: "nat \<Rightarrow> nat"
  sorted_block_size_arr :: "nat \<Rightarrow> nat"
  block_size_count_var :: nat
  g_pool_heap_start :: ptr

text \<open>Static storage is zero-initialised before the program starts.\<close>

definition pool_zero :: pool_state where
  "pool_zero = \<lparr> g_pool_heap = (\<lambda>_. 0), freelist_head_arr = (\<lambda>_. 0),
     sorted_block_size_arr = (\<lambda>_. 0), block_size_count_var = 0,
     g_pool_heap_start = NULL \<rparr>"

subsection \<open>The sort of pool\_init\<close>

text \<open>
  \<open>qsort_cmp\<close> reads both \<open>size_t\<close> elements through \<open>int\<close> pointers and subtracts.
  On the platforms the code is written for (little-endian, or \<open>int\<close> as wide as
  \<open>size_t\<close>) the read yields the low 32 bits of the element as a signed integer; the
  subtraction is taken in 32-bit two's complement.
\<close>

definition qsort_cmp :: "nat \<Rightarrow> nat \<Rightarrow> int" where
  "qsort_cmp a b = sint ((word_of_nat b :: 32 word) - (word_of_nat a :: 32 word))"

text \<open>
  \<open>qsort\<close> belongs to the C library. It rearranges the array into ascending order of
  the comparison function: an element \<open>x\<close> may stand before \<open>y\<close> when the comparison of
  \<open>x\<close> with \<open>y\<close> is not positive. It is embedded as an insertion sort. With a comparison
  function that is an order on the elements (as \<open>qsort_cmp\<close> is on sizes up to 65533)
  every sorting algorithm produces the same array.
\<close>

fun qsort_insert :: "(nat \<Rightarrow> nat \<Rightarrow> int) \<Rightarrow> nat \<Rightarrow> nat list \<Rightarrow> nat list" where
  "qsort_insert cmp x [] = [x]"
| "qsort_insert cmp x (y # ys) =
     (if cmp x y \<le> 0 then x # y # ys else y # qsort_insert cmp x ys)"

fun qsort :: "(nat \<Rightarrow> nat \<Rightarrow> int) \<Rightarrow> nat list \<Rightarrow> nat list" where
  "qsort cmp [] = []"
| "qsort cmp (x # xs) = qsort_insert cmp x (qsort cmp xs)"

text \<open>Reading the first \<open>n\<close> cells of an array, and storing a list into its first cells.\<close>

definition array_prefix :: "(nat \<Rightarrow> nat) \<Rightarrow> nat \<Rightarrow> nat list" where
  "array_prefix arr n = map arr [0..<n]"

definition array_store :: "nat list \<Rightarrow> (nat \<Rightarrow> nat) \<Rightarrow> (nat \<Rightarrow> nat)" where
  "array_store ys arr = (\<lambda>j. if j < length ys then ys ! j else arr j)"

subsection \<open>pool\_init\<close>

text \<open>
  The inner loop
  \<^verbatim>\<open>for (int idx = partition_start_offset; idx < upper_bound_offset;
       idx += (block_size + METADATA_LENGTH))\<close>
  writes one header per block of partition \<open>i\<close>.
\<close>

function insert_metadata :: "nat \<Rightarrow> nat \<Rightarrow> nat \<Rightarrow> nat \<Rightarrow> heap \<Rightarrow> heap" where
  "insert_metadata idx upper_bound_offset block_size i h =
     (if idx < upper_bound_offset then
        let ptr_next = idx + block_size + (2 * METADATA_LENGTH);
            h1 = (if ptr_next < upper_bound_offset \<and> ptr_next \<le> UINT16_MAX
                  then set_next_freelist_offset h idx ptr_next
                  else set_next_freelist_offset h idx 0);
            h2 = set_partition_number h1 idx i
        in insert_metadata (idx + (block_size + METADATA_LENGTH)) upper_bound_offset
             block_size i h2
      else h)"
  by pat_completeness auto
termination
  by (relation "measure (\<lambda>(idx, upper, bs, i, h). upper - idx)") auto

declare insert_metadata.simps [simp del]

text \<open>
  The partition size of the class of size \<open>block_size\<close>, when \<open>remaining_heap_size\<close>
  bytes are left for \<open>k = block_size_count - i\<close> classes.
\<close>

definition partition_size_of :: "nat \<Rightarrow> nat \<Rightarrow> nat \<Rightarrow> nat" where
  "partition_size_of remaining_heap_size k block_size =
     MAX_of (block_size + METADATA_LENGTH)
       ((remaining_heap_size div k)
          - ((remaining_heap_size div k) mod (block_size + METADATA_LENGTH)))"

text \<open>
  The outer loop \<^verbatim>\<open>for (int i = 0; i < block_size_count; ++i)\<close>, from the index \<open>i\<close>
  on, with the values of the local variables \<open>remaining_heap_size\<close> and
  \<open>partition_start_offset\<close> at that point. The \<open>uint32_t\<close> locals never exceed
  \<open>2 * HEAP_SIZE\<close> once the block size has passed its check, and
  \<open>HEAP_SIZE - upper_bound_offset\<close> is taken modulo \<open>2 ^ 32\<close> as in C.
\<close>

function init_loop :: "nat \<Rightarrow> nat \<Rightarrow> nat \<Rightarrow> nat \<Rightarrow> pool_state \<Rightarrow> bool \<times> pool_state" where
  "init_loop i block_size_count remaining_heap_size partition_start_offset s =
     (if i < block_size_count then
        let block_size = sorted_block_size_arr s i in
        if block_size = 0 \<or> HEAP_SIZE - METADATA_LENGTH < block_size then (False, s)
        else
          let partition_size =
                partition_size_of remaining_heap_size (block_size_count - i) block_size
          in
          if partition_size > remaining_heap_size then (False, s)
          else
            let s1 = s\<lparr>freelist_head_arr := (freelist_head_arr s)
                         (i := (partition_start_offset + METADATA_LENGTH) mod 65536)\<rparr>;
                upper_bound_offset = partition_start_offset + partition_size;
                s2 = s1\<lparr>g_pool_heap := insert_metadata partition_start_offset
                           upper_bound_offset block_size i (g_pool_heap s1)\<rparr>
            in init_loop (i + 1) block_size_count
                 ((HEAP_SIZE + 4294967296 - upper_bound_offset) mod 4294967296)
                 upper_bound_offset s2
      else (True, s))"
  by pat_completeness auto
termination
  by (relation "measure (\<lambda>(i, n, r, p, s). n - i)") auto

declare init_loop.simps [simp del]

text \<open>
  \<open>pool_init(block_sizes, block_size_count)\<close>. The argument \<open>block_sizes\<close> is \<open>None\<close>
  for a null pointer and \<open>Some xs\<close> for a pointer to the array \<open>xs\<close>; the copy loop reads
  \<open>block_sizes[0 .. block_size_count - 1]\<close>, which must exist.
\<close>

definition pool_init :: "nat list option \<Rightarrow> nat \<Rightarrow> pool_state \<Rightarrow> (bool \<times> pool_state) option" where
  "pool_init block_sizes block_size_count s =
     (if block_size_count = 0 \<or> block_sizes = None \<or> block_size_count > MAX_BLOCK_SIZE_COUNT
      then Some (False, s)
      else case block_sizes of
        None \<Rightarrow> Some (False, s)
      | Some xs \<Rightarrow>
          if length xs < block_size_count then None
          else
            let s1 = s\<lparr>block_size_count_var := block_size_count, g_pool_heap_start := Heap 0\<rparr>;
                s2 = s1\<lparr>sorted_block_size_arr :=
                        array_store (take block_size_count xs) (sorted_block_size_arr s1)\<rparr>;
                s3 = s2\<lparr>sorted_block_size_arr :=
                        array_store (qsort qsort_cmp
                                       (array_prefix (sorted_block_size_arr s2) block_size_count))
                          (sorted_block_size_arr s2)\<rparr>
            in Some (init_loop 0 block_size_count HEAP_SIZE 0 s3))"

subsection \<open>pool\_malloc\<close>

text \<open>
  The loop \<^verbatim>\<open>for (int i = block_size_count_var - 1; i >= 0; --i)\<close> with its \<open>break\<close>:
  \<open>find_partition k n s\<close> scans the indices \<open>k - 1\<close> down to \<open>0\<close> and returns the first one
  whose free list is not empty and whose block size is at least \<open>n\<close>, or \<open>None\<close> when
  \<open>found_partition\<close> stays false.
\<close>

fun find_partition :: "nat \<Rightarrow> nat \<Rightarrow> pool_state \<Rightarrow> nat option" where
  "find_partition 0 n s = None"
| "find_partition (Suc i) n s =
     (if freelist_head_arr s i \<noteq> 0 \<and> sorted_block_size_arr s i \<ge> n then Some i
      else find_partition i n s)"

text \<open>
  \<open>pool_malloc(n)\<close>. The header of the block at the head of the list is read at
  \<open>g_pool_heap_start + freelist_head - METADATA_LENGTH\<close>; \<open>partition_num\<close> is a
  \<open>uint8_t\<close>.
\<close>

definition pool_malloc :: "nat \<Rightarrow> pool_state \<Rightarrow> (ptr \<times> pool_state) option" where
  "pool_malloc n s =
     (if n = 0 \<or> n > sorted_block_size_arr s 0 then Some (NULL, s)
      else case find_partition (block_size_count_var s) n s of
        None \<Rightarrow> Some (NULL, s)
      | Some i \<Rightarrow>
          let partition_num = i mod 256;
              freelist_head = freelist_head_arr s partition_num
          in (case g_pool_heap_start s of
                NULL \<Rightarrow> None
              | Heap base \<Rightarrow>
                  if base + freelist_head < METADATA_LENGTH \<or> HEAP_SIZE < base + freelist_head
                  then None
                  else
                    let header = base + freelist_head - METADATA_LENGTH;
                        heads = (freelist_head_arr s)
                          (partition_num := get_next_freelist_offset (g_pool_heap s) header)
                    in Some (Heap (base + freelist_head), s\<lparr>freelist_head_arr := heads\<rparr>)))"

subsection \<open>pool\_free\<close>

text \<open>
  \<open>pool_free(ptr)\<close>. The header is the \<open>metadata\<close> just before \<open>ptr\<close>; the new head
  \<open>(uint8_t*) ptr - g_pool_heap_start\<close> is stored into a \<open>uint16_t\<close>.
\<close>

definition pool_free :: "ptr \<Rightarrow> pool_state \<Rightarrow> pool_state option" where
  "pool_free p s =
     (case p of
        NULL \<Rightarrow> None
      | Heap off \<Rightarrow>
          if off < METADATA_LENGTH \<or> HEAP_SIZE < off then None
          else
            let header = off - METADATA_LENGTH;
                partition_num = get_partition_number (g_pool_heap s) header
            in if partition_num \<ge> MAX_BLOCK_SIZE_COUNT then None
               else (case g_pool_heap_start s of
                 NULL \<Rightarrow> None
               | Heap base \<Rightarrow>
                   if off < base then None
                   else
                     let h1 = set_next_freelist_offset (g_pool_heap s) header
                                (freelist_head_arr s partition_num);
                         heads = (freelist_head_arr s)
                           (partition_num := (off - base) mod 65536)
                     in Some (s\<lparr>g_pool_heap := h1, freelist_head_arr := heads\<rparr>)))"

section \<open>Notions used to state the properties\<close>

subsection \<open>The layout rule, as the specification words it\<close>

text \<open>
  The specification describes the layout by a walk over the classes in descending order of
  size, with a cursor that starts at 0. For the class of size \<open>s\<close>, when \<open>k\<close> classes are
  still to be placed and the cursor is \<open>c\<close>: the equal share is
  \<open>E = (HEAP_SIZE - c) div k\<close>, the stride is \<open>T = s + 3\<close>, and the partition receives
  \<open>max T (E - E mod T)\<close> bytes.
\<close>

definition partition_bytes_at :: "nat \<Rightarrow> nat \<Rightarrow> nat \<Rightarrow> nat" where
  "partition_bytes_at c k s =
     (let E = (HEAP_SIZE - c) div k; T = s + 3 in max T (E - E mod T))"

text \<open>\<open>cursor cs i\<close> is the cursor when class \<open>i\<close> of the sorted sizes \<open>cs\<close> is placed.\<close>

fun cursor :: "nat list \<Rightarrow> nat \<Rightarrow> nat" where
  "cursor cs 0 = 0"
| "cursor cs (Suc i) =
     cursor cs i + partition_bytes_at (cursor cs i) (length cs - i) (cs ! i)"

definition partition_bytes :: "nat list \<Rightarrow> nat \<Rightarrow> nat" where
  "partition_bytes cs i = partition_bytes_at (cursor cs i) (length cs - i) (cs ! i)"

text \<open>The number of blocks of class \<open>i\<close>, and the payload offsets of these blocks.\<close>

definition block_count :: "nat list \<Rightarrow> nat \<Rightarrow> nat" where
  "block_count cs i = partition_bytes cs i div (cs ! i + 3)"

definition class_blocks :: "nat list \<Rightarrow> nat \<Rightarrow> nat list" where
  "class_blocks cs i = map (\<lambda>j. cursor cs i + 3 + j * (cs ! i + 3)) [0..<block_count cs i]"

text \<open>
  Every size is between 1 and \<open>HEAP_SIZE - 3\<close>; no partition exceeds the bytes that
  remain when it is placed.
\<close>

definition sizes_valid :: "nat list \<Rightarrow> bool" where
  "sizes_valid cs = (\<forall>x\<in>set cs. 1 \<le> x \<and> x \<le> HEAP_SIZE - 3)"

definition layout_fits :: "nat list \<Rightarrow> bool" where
  "layout_fits cs = (\<forall>i<length cs. partition_bytes cs i \<le> HEAP_SIZE - cursor cs i)"

text \<open>The sizes in descending order, duplicates kept.\<close>

definition sort_desc :: "nat list \<Rightarrow> nat list" where
  "sort_desc xs = rev (sort xs)"

subsection \<open>Headers and free lists in the heap\<close>

text \<open>
  \<open>threaded h i start T k\<close>: in the heap \<open>h\<close> the \<open>k\<close> headers at \<open>start\<close>,
  \<open>start + T\<close>, \<dots> carry the partition number \<open>i\<close>, and each one links to the payload
  of the next, the last one to 0.
\<close>

definition threaded :: "heap \<Rightarrow> nat \<Rightarrow> nat \<Rightarrow> nat \<Rightarrow> nat \<Rightarrow> bool" where
  "threaded h i start T k =
     (\<forall>j<k. get_next_freelist_offset h (start + j * T)
               = (if j + 1 < k then start + (j + 1) * T + 3 else 0)
           \<and> get_partition_number h (start + j * T) = i)"

text \<open>
  \<open>free_chain h off ps\<close>: following \<open>next_freelist_offset\<close> from the payload offset
  \<open>off\<close> visits exactly the payload offsets \<open>ps\<close>, in this order, and then reaches 0.
\<close>

fun free_chain :: "heap \<Rightarrow> nat \<Rightarrow> nat list \<Rightarrow> bool" where
  "free_chain h off [] = (off = 0)"
| "free_chain h off (p # ps) =
     (off = p \<and> p \<noteq> 0 \<and> free_chain h (get_next_freelist_offset h (p - 3)) ps)"

subsection \<open>Sequences of calls that respect the contract of pool\_free\<close>

text \<open>
  A caller issues \<open>pool_malloc\<close> and \<open>pool_free\<close> calls. Beside the allocator state the
  run records the pointers the caller holds, each with the index of the class it was
  popped from. A call \<open>pool_free(p)\<close> is within the contract when \<open>p\<close> is held; it then
  ceases to be held. The run is \<open>None\<close> when a call is outside the contract or has
  undefined behaviour.
\<close>

datatype call = Malloc nat | Free ptr

fun step :: "call \<Rightarrow> pool_state \<times> (nat \<times> nat) list \<Rightarrow> (pool_state \<times> (nat \<times> nat) list) option" where
  "step (Malloc n) (s, held) =
     (case pool_malloc n s of
        None \<Rightarrow> None
      | Some (NULL, s') \<Rightarrow> Some (s', held)
      | Some (Heap p, s') \<Rightarrow>
          (case find_partition (block_size_count_var s) n s of
             None \<Rightarrow> None
           | Some i \<Rightarrow> Some (s', (p, i) # held)))"
| "step (Free NULL) (s, held) = None"
| "step (Free (Heap p)) (s, held) =
     (case map_of held p of
        None \<Rightarrow> None
      | Some i \<Rightarrow>
          (case pool_free (Heap p) s of
             None \<Rightarrow> None
           | Some s' \<Rightarrow> Some (s', remove1 (p, i) held)))"

fun run :: "call list \<Rightarrow> pool_state \<times> (nat \<times> nat) list \<Rightarrow> (pool_state \<times> (nat \<times> nat) list) option" where
  "run [] c = Some c"
| "run (x # xs) c = (case step x c of None \<Rightarrow> None | Some c' \<Rightarrow> run xs c')"

text \<open>The payload offsets held from class \<open>i\<close>.\<close>

definition held_of :: "nat \<Rightarrow> (nat \<times> nat) list \<Rightarrow> nat list" where
  "held_of i held = map fst (filter (\<lambda>e. snd e = i) held)"

subsection \<open>Allocating until the allocator refuses\<close>

text \<open>
  \<open>successes_before_NULL fuel m s\<close> calls \<open>pool_malloc(m)\<close> again and again from the
  state \<open>s\<close> and counts the calls that return a pointer before the first call that
  returns \<open>NULL\<close>. It is \<open>None\<close> when \<open>fuel\<close> calls do not reach a \<open>NULL\<close>, or a call has
  undefined behaviour.
\<close>

fun successes_before_NULL :: "nat \<Rightarrow> nat \<Rightarrow> pool_state \<Rightarrow> nat option" where
  "successes_before_NULL 0 m s = None"
| "successes_before_NULL (Suc fuel) m s =
     (case pool_malloc m s of
        None \<Rightarrow> None
      | Some (NULL, s') \<Rightarrow> Some 0
      | Some (Heap p, s') \<Rightarrow> map_option Suc (successes_before_NULL fuel m s'))"

text \<open>The number of blocks of all classes whose block size is at least \<open>m\<close>.\<close>

definition fitting_blocks :: "nat list \<Rightarrow> nat \<Rightarrow> nat" where
  "fitting_blocks cs m =
     sum_list (map (block_count cs) (filter (\<lambda>j. m \<le> cs ! j) [0..<length cs]))"

subsection \<open>A small instance\<close>

text \<open>
  The allocator initialised with the sizes 20000 and 40000 has one block of 40000 bytes
  (class 0, payload offset 3) and one block of 20000 bytes (class 1, payload offset 40006).
  Its heap holds zero everywhere except for the partition number of the second header;
  \<open>example_state h0 h1\<close> is the state with the free-list heads \<open>h0\<close> and \<open>h1\<close>.
\<close>

definition example_heap :: heap where
  "example_heap = (\<lambda>_. 0)(40005 := 1)"

definition example_state :: "nat \<Rightarrow> nat \<Rightarrow> pool_state" where
  "example_state h0 h1 = \<lparr> g_pool_heap = example_heap,
     freelist_head_arr = (\<lambda>_. 0)(0 := h0, 1 := h1),
     sorted_block_size_arr = array_store [40000, 20000] (\<lambda>_. 0), block_size_count_var = 2,
     g_pool_heap_start = Heap 0 \<rparr>"

text \<open>
  The state in which \<open>pool_init\<close> leaves the zero-initialised allocator when it is called
  with the sizes 40000 and 30000: the first partition is placed, the second does not fit.
\<close>

definition failed_init_state :: pool_state where
  "failed_init_state = \<lparr> g_pool_heap = (\<lambda>_. 0), freelist_head_arr = (\<lambda>_. 0)(0 := 3),
     sorted_block_size_arr = array_store [40000, 30000] (\<lambda>_. 0), block_size_count_var = 2,
     g_pool_heap_start = Heap 0 \<rparr>"

subsection \<open>Auxiliary notions of the proofs\<close>

text \<open>One pass of the outer loop of \<open>pool_init\<close> that places partition \<open>i\<close>.\<close>

definition place_partition :: "nat \<Rightarrow> nat \<Rightarrow> nat \<Rightarrow> pool_state \<Rightarrow> pool_state" where
  "place_partition i p ps s =
     s\<lparr>freelist_head_arr := (freelist_head_arr s)(i := (p + 3) mod 65536),
       g_pool_heap := insert_metadata p (p + ps) (sorted_block_size_arr s i) i (g_pool_heap s)\<rparr>"

text \<open>The state in which \<open>pool_init\<close> enters its layout loop.\<close>

definition sorted_state :: "nat list \<Rightarrow> pool_state \<Rightarrow> pool_state" where
  "sorted_state cs s =
     s\<lparr>block_size_count_var := length cs, g_pool_heap_start := Heap 0,
       sorted_block_size_arr := array_store cs (sorted_block_size_arr s)\<rparr>"

text \<open>
  The invariant of the allocator for the sorted sizes \<open>cs\<close> and the held pointers: the
  static variables describe \<open>cs\<close>, every block carries the index of its class, and the
  free list of each class together with the pointers held from it makes up the blocks
  of the class.
\<close>

definition pool_inv :: "nat list \<Rightarrow> pool_state \<Rightarrow> (nat \<times> nat) list \<Rightarrow> bool" where
  "pool_inv cs s held \<longleftrightarrow>
     sizes_valid cs \<and> layout_fits cs \<and> 1 \<le> length cs \<and> length cs \<le> 255 \<and>
     sorted_wrt (\<ge>) cs \<and>
     block_size_count_var s = length cs \<and> g_pool_heap_start s = Heap 0 \<and>
     (\<forall>j<length cs. sorted_block_size_arr s j = cs ! j) \<and>
     (\<forall>i<length cs. \<forall>p\<in>set (class_blocks cs i). get_partition_number (g_pool_heap s) (p - 3) = i) \<and>
     (\<forall>i<length cs. \<exists>ps. free_chain (g_pool_heap s) (freelist_head_arr s i) ps \<and>
          mset ps + mset (held_of i held) = mset (class_blocks cs i)) \<and>
     (\<forall>e\<in>set held. snd e < length cs)"

text \<open>
  The number of free blocks in the classes whose block size is at least \<open>m\<close>, when the
  pointers \<open>held\<close> are allocated.
\<close>

definition free_total :: "nat list \<Rightarrow> nat \<Rightarrow> (nat \<times> nat) list \<Rightarrow> nat" where
  "free_total cs m held =
     (\<Sum>j \<in> {j. j < length cs \<and> m \<le> cs ! j}. block_count cs j - length (held_of j held))"

section \<open>Lemmas\<close>

subsection \<open>The fields of a header\<close>

lemma get_set_next_same:
  "get_next_freelist_offset (set_next_freelist_offset h a v) a = v mod 65536"
proof -
  have "v mod 256 + 256 * (v div 256 mod 256) = v mod 65536"
    using mod_mult2_eq[of v 256 256] by simp
  then show ?thesis
    by (simp add: get_next_freelist_offset_def set_next_freelist_offset_def)
qed

lemma get_next_set_next_other:
  "b + 1 < a \<or> a + 1 < b \<Longrightarrow>
   get_next_freelist_offset (set_next_freelist_offset h a v) b = get_next_freelist_offset h b"
  by (auto simp: get_next_freelist_offset_def set_next_freelist_offset_def)

lemma get_next_set_partition:
  "b \<noteq> a + 2 \<Longrightarrow> b + 1 \<noteq> a + 2 \<Longrightarrow>
   get_next_freelist_offset (set_partition_number h a v) b = get_next_freelist_offset h b"
  by (auto simp: get_next_freelist_offset_def set_partition_number_def)

lemma get_partition_set_partition_same:
  "get_partition_number (set_partition_number h a v) a = v mod 256"
  by (simp add: get_partition_number_def set_partition_number_def)

lemma get_partition_set_next:
  "b + 2 \<noteq> a \<Longrightarrow> b + 1 \<noteq> a \<Longrightarrow>
   get_partition_number (set_next_freelist_offset h a v) b = get_partition_number h b"
  by (auto simp: get_partition_number_def set_next_freelist_offset_def)

subsection \<open>The inner loop of pool\_init\<close>

lemma insert_metadata_step:
  "idx < upper \<Longrightarrow>
   insert_metadata idx upper bs i h =
   insert_metadata (idx + (bs + 3)) upper bs i
     (set_partition_number
        (set_next_freelist_offset h idx
           (if idx + bs + 6 < upper \<and> idx + bs + 6 \<le> 65535 then idx + bs + 6 else 0))
        idx i)"
  by (subst insert_metadata.simps) (simp add: Let_def)

lemma insert_metadata_done:
  "\<not> idx < upper \<Longrightarrow> insert_metadata idx upper bs i h = h"
  by (subst insert_metadata.simps) simp

lemma insert_metadata_below:
  "a < idx \<Longrightarrow> insert_metadata idx upper bs i h a = h a"
proof (induction "upper - idx" arbitrary: idx h rule: less_induct)
  case less
  show ?case
  proof (cases "idx < upper")
    case True
    have dec: "upper - (idx + (bs + 3)) < upper - idx" using True by simp
    have lt: "a < idx + (bs + 3)" using less.prems by simp
    show ?thesis
      using less.prems
      by (simp add: insert_metadata_step[OF True] less.hyps[OF dec lt]
            set_partition_number_def set_next_freelist_offset_def)
  next
    case False
    then show ?thesis by (simp add: insert_metadata_done)
  qed
qed

lemma insert_metadata_threaded:
  "upper = idx + k * (bs + 3) \<Longrightarrow> upper \<le> 65536 \<Longrightarrow> 0 < bs \<Longrightarrow>
   threaded (insert_metadata idx upper bs i h) (i mod 256) idx (bs + 3) k"
proof (induction k arbitrary: idx h)
  case 0
  then show ?case by (simp add: threaded_def)
next
  case (Suc k)
  let ?T = "bs + 3"
  let ?nx = "if idx + bs + 6 < upper \<and> idx + bs + 6 \<le> 65535 then idx + bs + 6 else 0"
  let ?h2 = "set_partition_number (set_next_freelist_offset h idx ?nx) idx i"
  have lt: "idx < upper" using Suc.prems by simp
  have unf: "insert_metadata idx upper bs i h = insert_metadata (idx + ?T) upper bs i ?h2"
    using lt by (rule insert_metadata_step)
  have up: "upper = (idx + ?T) + k * ?T" using Suc.prems by simp
  have IH: "threaded (insert_metadata (idx + ?T) upper bs i ?h2) (i mod 256) (idx + ?T) ?T k"
    by (rule Suc.IH[OF up Suc.prems(2) Suc.prems(3)])
  have below: "\<And>a. a < idx + ?T \<Longrightarrow> insert_metadata (idx + ?T) upper bs i ?h2 a = ?h2 a"
    by (rule insert_metadata_below)
  have nx: "?nx = (if 0 < k then idx + ?T + 3 else 0)"
  proof (cases k)
    case 0
    then show ?thesis using Suc.prems by simp
  next
    case (Suc k')
    have "idx + bs + 6 < idx + ?T + ?T" using \<open>0 < bs\<close> by simp
    also have "\<dots> \<le> upper" using Suc.prems(1) Suc by simp
    finally have "idx + bs + 6 < upper" .
    then show ?thesis using Suc Suc.prems(2) by simp
  qed
  have nx65: "?nx < 65536" using Suc.prems(2) by auto
  have h0n: "get_next_freelist_offset (insert_metadata idx upper bs i h) idx = ?nx"
  proof -
    have "get_next_freelist_offset (insert_metadata (idx + ?T) upper bs i ?h2) idx
          = get_next_freelist_offset ?h2 idx"
      using below by (simp add: get_next_freelist_offset_def)
    also have "\<dots> = get_next_freelist_offset (set_next_freelist_offset h idx ?nx) idx"
      by (rule get_next_set_partition) simp_all
    also have "\<dots> = ?nx mod 65536" by (rule get_set_next_same)
    also have "\<dots> = ?nx" using nx65 by simp
    finally show ?thesis by (simp only: unf)
  qed
  have h0p: "get_partition_number (insert_metadata idx upper bs i h) idx = i mod 256"
  proof -
    have "get_partition_number (insert_metadata (idx + ?T) upper bs i ?h2) idx
          = get_partition_number ?h2 idx"
      using below by (simp add: get_partition_number_def)
    also have "\<dots> = i mod 256" by (rule get_partition_set_partition_same)
    finally show ?thesis by (simp only: unf)
  qed
  define H where "H = insert_metadata idx upper bs i h"
  have IH': "threaded H (i mod 256) (idx + ?T) ?T k"
    using IH by (simp only: H_def unf)
  have h0n': "get_next_freelist_offset H idx = ?nx" using h0n by (simp only: H_def)
  have h0p': "get_partition_number H idx = i mod 256" using h0p by (simp only: H_def)
  have "threaded H (i mod 256) idx ?T (Suc k)"
    unfolding threaded_def
  proof (intro allI impI)
    fix j assume j: "j < Suc k"
    show "get_next_freelist_offset H (idx + j * ?T)
            = (if j + 1 < Suc k then idx + (j + 1) * ?T + 3 else 0)
          \<and> get_partition_number H (idx + j * ?T) = i mod 256"
    proof (cases j)
      case 0
      then show ?thesis using h0n' h0p' nx by simp
    next
      case (Suc j')
      then have j': "j' < k" using j by simp
      have addr: "idx + j * ?T = (idx + ?T) + j' * ?T" using Suc by simp
      have nxt: "idx + (j + 1) * ?T + 3 = (idx + ?T) + (j' + 1) * ?T + 3" using Suc by simp
      have "get_next_freelist_offset H ((idx + ?T) + j' * ?T)
              = (if j' + 1 < k then (idx + ?T) + (j' + 1) * ?T + 3 else 0)
            \<and> get_partition_number H ((idx + ?T) + j' * ?T) = i mod 256"
        using IH' j' unfolding threaded_def by blast
      then show ?thesis
        unfolding addr nxt using Suc by simp
    qed
  qed
  then show ?case by (simp only: H_def)
qed

subsection \<open>The outer loop of pool\_init\<close>

lemma MAX_of_max: "MAX_of x y = max x y"
  by (simp add: MAX_of_def max_def)

lemma partition_size_of_bytes_at:
  "c \<le> 65536 \<Longrightarrow> partition_size_of (65536 - c) k s = partition_bytes_at c k s"
  by (simp add: partition_size_of_def partition_bytes_at_def MAX_of_max Let_def)

lemma init_loop_done:
  "\<not> i < n \<Longrightarrow> init_loop i n r p s = (True, s)"
  by (subst init_loop.simps) simp

lemma init_loop_bad_size:
  "i < n \<Longrightarrow> sorted_block_size_arr s i = 0 \<or> 65533 < sorted_block_size_arr s i \<Longrightarrow>
   init_loop i n r p s = (False, s)"
  by (subst init_loop.simps) (auto simp: Let_def)

lemma init_loop_overrun:
  "i < n \<Longrightarrow> r < partition_size_of r (n - i) (sorted_block_size_arr s i) \<Longrightarrow>
   init_loop i n r p s = (False, s)"
  by (subst init_loop.simps) (auto simp: Let_def)

lemma init_loop_step:
  assumes "i < n" "sorted_block_size_arr s i \<noteq> 0" "sorted_block_size_arr s i \<le> 65533"
    and "partition_size_of r (n - i) (sorted_block_size_arr s i) = ps" "ps \<le> r"
  shows "init_loop i n r p s =
         init_loop (i + 1) n ((65536 + 4294967296 - (p + ps)) mod 4294967296) (p + ps)
           (place_partition i p ps s)"
  using assms
  by (subst init_loop.simps) (simp add: Let_def place_partition_def)

lemma init_loop_frame:
  "init_loop i n r p s = (ok, s') \<Longrightarrow>
   sorted_block_size_arr s' = sorted_block_size_arr s \<and>
   block_size_count_var s' = block_size_count_var s \<and>
   g_pool_heap_start s' = g_pool_heap_start s \<and>
   (\<forall>j. j < i \<or> n \<le> j \<longrightarrow> freelist_head_arr s' j = freelist_head_arr s j) \<and>
   (\<forall>a<p. g_pool_heap s' a = g_pool_heap s a)"
proof (induction "n - i" arbitrary: i r p s)
  case 0
  then have "\<not> i < n" by simp
  then show ?case using 0 by (simp add: init_loop_done)
next
  case (Suc d)
  then have lt: "i < n" by simp
  let ?bs = "sorted_block_size_arr s i"
  let ?ps = "partition_size_of r (n - i) ?bs"
  show ?case
  proof (cases "?bs = 0 \<or> 65533 < ?bs")
    case True
    then show ?thesis using Suc.prems lt by (simp add: init_loop_bad_size)
  next
    case sz: False
    show ?thesis
    proof (cases "r < ?ps")
      case True
      then show ?thesis using Suc.prems lt by (simp add: init_loop_overrun)
    next
      case False
      let ?s2 = "place_partition i p ?ps s"
      have st: "init_loop i n r p s =
         init_loop (i + 1) n ((65536 + 4294967296 - (p + ?ps)) mod 4294967296) (p + ?ps) ?s2"
        using lt sz False by (intro init_loop_step) auto
      have d: "d = n - (i + 1)" using Suc.hyps(2) by simp
      have rec: "init_loop (i + 1) n ((65536 + 4294967296 - (p + ?ps)) mod 4294967296) (p + ?ps) ?s2
                 = (ok, s')"
        using Suc.prems st by simp
      note IH = Suc.hyps(1)[OF d rec]
      have heap2: "\<forall>a<p. g_pool_heap ?s2 a = g_pool_heap s a"
        by (simp add: place_partition_def insert_metadata_below)
      show ?thesis
        using IH heap2 lt by (auto simp: place_partition_def)
    qed
  qed
qed

lemma partition_bytes_at_pos: "0 < partition_bytes_at c k s"
  by (simp add: partition_bytes_at_def Let_def less_max_iff_disj)

lemma partition_bytes_at_stride:
  "\<exists>k'. 0 < k' \<and> partition_bytes_at c k s = k' * (s + 3)"
proof -
  let ?E = "(65536 - c) div k" 
  let ?T = "s + 3"
  show ?thesis
  proof (cases "?T \<le> ?E - ?E mod ?T")
    case True
    have "?E - ?E mod ?T = (?E div ?T) * ?T"
      by (simp add: minus_mod_eq_div_mult)
    moreover have "0 < ?E div ?T" using True calculation
      by (metis add_is_0 mult_is_0 neq0_conv not_less0 not_le zero_neq_numeral) 
    ultimately show ?thesis using True
      by (auto simp: partition_bytes_at_def Let_def max_def)
  next
    case False
    then have "partition_bytes_at c k s = 1 * ?T"
      by (simp add: partition_bytes_at_def Let_def max_def)
    then show ?thesis by blast
  qed
qed

lemma partition_bytes_stride:
  "partition_bytes cs i = block_count cs i * (cs ! i + 3) \<and> 0 < block_count cs i"
proof -
  obtain k' where k: "0 < k'" "partition_bytes cs i = k' * (cs ! i + 3)"
    unfolding partition_bytes_def using partition_bytes_at_stride by blast
  then have "block_count cs i = k'" by (simp add: block_count_def)
  then show ?thesis using k by simp
qed

lemma cursor_Suc: "cursor cs (Suc i) = cursor cs i + partition_bytes cs i"
  by (simp add: partition_bytes_def)

lemma cursor_mono: "i \<le> j \<Longrightarrow> cursor cs i \<le> cursor cs j"
proof (induction j)
  case 0
  then show ?case by simp
next
  case (Suc j)
  then show ?case by (cases "i = Suc j") (auto simp: cursor_Suc simp del: cursor.simps)
qed

lemma layout_fits_cursor:
  "layout_fits cs \<longleftrightarrow> (\<forall>i<length cs. cursor cs (Suc i) \<le> HEAP_SIZE)"
proof -
  have "partition_bytes cs i \<le> 65536 - cursor cs i \<longleftrightarrow> cursor cs (Suc i) \<le> 65536" for i
    using partition_bytes_at_pos[of "cursor cs i" "length cs - i" "cs ! i"]
    by (auto simp: cursor_Suc partition_bytes_def simp del: cursor.simps)
  then show ?thesis by (simp add: layout_fits_def del: cursor.simps)
qed

lemma threaded_below:
  assumes "\<forall>a < start + k * T. h' a = h a" "3 \<le> T" "threaded h i start T k"
  shows "threaded h' i start T k"
  unfolding threaded_def
proof (intro allI impI)
  fix j assume j: "j < k"
  have "Suc j * T \<le> k * T" using j by (intro mult_le_mono1) simp
  then have b: "start + j * T + 2 < start + k * T" using assms(2) by simp
  have a0: "h' (start + j * T) = h (start + j * T)"
    and a1: "h' (start + j * T + 1) = h (start + j * T + 1)"
    and a2: "h' (start + j * T + 2) = h (start + j * T + 2)"
  proof -
    have "start + j * T < start + k * T" "start + j * T + 1 < start + k * T"
      using b by linarith+
    then show "h' (start + j * T) = h (start + j * T)"
      and "h' (start + j * T + 1) = h (start + j * T + 1)"
      using assms(1) by blast+
    show "h' (start + j * T + 2) = h (start + j * T + 2)"
      using assms(1) b by blast
  qed
  have "get_next_freelist_offset h' (start + j * T) = get_next_freelist_offset h (start + j * T)"
    by (simp only: get_next_freelist_offset_def a0 a1)
  moreover have "get_partition_number h' (start + j * T) = get_partition_number h (start + j * T)"
    by (simp only: get_partition_number_def a2)
  ultimately show "get_next_freelist_offset h' (start + j * T)
            = (if j + 1 < k then start + (j + 1) * T + 3 else 0)
          \<and> get_partition_number h' (start + j * T) = i"
    using assms(3) j unfolding threaded_def by simp
qed

lemma wrap32:
  assumes "u \<le> 65536"
  shows "(65536 + 4294967296 - u) mod 4294967296 = 65536 - (u::nat)"
proof -
  have "65536 + 4294967296 - u = (65536 - u) + 4294967296" using assms by simp
  then have "(65536 + 4294967296 - u) mod 4294967296 = (65536 - u) mod 4294967296"
    by (simp only: mod_add_self2)
  then show ?thesis by simp
qed

lemma init_loop_laid:
  assumes "length cs = n" "n \<le> 255"
  shows "\<forall>j<n. sorted_block_size_arr s j = cs ! j \<Longrightarrow> p = cursor cs i \<Longrightarrow> p \<le> 65536 \<Longrightarrow>
         init_loop i n (65536 - p) p s = (ok, s') \<Longrightarrow>
         (ok \<longleftrightarrow> (\<forall>m. i \<le> m \<and> m < n \<longrightarrow>
                  1 \<le> cs ! m \<and> cs ! m \<le> 65533 \<and> cursor cs (Suc m) \<le> 65536)) \<and>
         (ok \<longrightarrow> (\<forall>m. i \<le> m \<and> m < n \<longrightarrow>
                  freelist_head_arr s' m = cursor cs m + 3 \<and>
                  threaded (g_pool_heap s') m (cursor cs m) (cs ! m + 3) (block_count cs m)))"
proof (induction "n - i" arbitrary: i p s)
  case 0
  then have "\<not> i < n" by simp
  then show ?case using 0 by (auto simp: init_loop_done)
next
  case (Suc d)
  then have lt: "i < n" by simp
  let ?bs = "sorted_block_size_arr s i"
  let ?r = "65536 - p"
  let ?ps = "partition_size_of ?r (n - i) ?bs"
  have bs: "?bs = cs ! i" using Suc.prems(1) lt by simp
  have ps: "?ps = partition_bytes cs i"
    using Suc.prems(2,3) assms(1) bs
    by (simp add: partition_size_of_bytes_at partition_bytes_def)
  have cS: "cursor cs (Suc i) = p + ?ps"
    using ps Suc.prems(2) by (simp add: cursor_Suc del: cursor.simps)
  show ?case
  proof (cases "?bs = 0 \<or> 65533 < ?bs")
    case True
    then have "init_loop i n ?r p s = (False, s)" using lt by (simp add: init_loop_bad_size)
    then have "\<not> ok" using Suc.prems(4) by simp
    moreover have "\<not> (1 \<le> cs ! i \<and> cs ! i \<le> 65533)" using True bs by auto
    ultimately show ?thesis using lt by blast
  next
    case sz: False
    show ?thesis
    proof (cases "?r < ?ps")
      case True
      then have "init_loop i n ?r p s = (False, s)" using lt by (simp add: init_loop_overrun)
      then have "\<not> ok" using Suc.prems(4) by simp
      moreover have "\<not> cursor cs (Suc i) \<le> 65536" using True cS Suc.prems(3) by simp
      ultimately show ?thesis using lt by blast
    next
      case False
      let ?s2 = "place_partition i p ?ps s"
      let ?p2 = "p + ?ps"
      have fit: "?p2 \<le> 65536" using False Suc.prems(3) by simp
      have st: "init_loop i n ?r p s =
         init_loop (i + 1) n ((65536 + 4294967296 - ?p2) mod 4294967296) ?p2 ?s2"
        using lt sz False by (intro init_loop_step) auto
      have rec: "init_loop (i + 1) n (65536 - ?p2) ?p2 ?s2 = (ok, s')"
        using Suc.prems(4) st wrap32[OF fit] by simp
      have d: "d = n - (i + 1)" using Suc.hyps(2) by simp
      have srt2: "\<forall>j<n. sorted_block_size_arr ?s2 j = cs ! j"
        using Suc.prems(1) by (simp add: place_partition_def)
      have p2: "?p2 = cursor cs (i + 1)" using cS by simp
      note IH = Suc.hyps(1)[OF d srt2 p2 fit rec]
      note fr = init_loop_frame[OF rec]
      have st0: "partition_bytes cs i = block_count cs i * (cs ! i + 3)" "0 < block_count cs i"
        using partition_bytes_stride[of cs i] by simp_all
      have imod: "i mod 256 = i" using lt assms(2) by simp
      have bs1: "0 < cs ! i" using sz bs by simp
      have up: "p + ?ps = p + block_count cs i * (cs ! i + 3)" using ps st0 by simp
      have th2: "threaded (g_pool_heap ?s2) i p (cs ! i + 3) (block_count cs i)"
        using insert_metadata_threaded[OF up fit bs1, of i "g_pool_heap s"] imod bs
        by (simp add: place_partition_def)
      have frh: "\<forall>a < p + block_count cs i * (cs ! i + 3). g_pool_heap s' a = g_pool_heap ?s2 a"
        using fr up by simp
      have T3: "3 \<le> cs ! i + 3" by simp
      have th: "threaded (g_pool_heap s') i p (cs ! i + 3) (block_count cs i)"
        by (rule threaded_below[OF frh T3 th2])
      have le1: "1 \<le> block_count cs i" using st0(2) by simp
      have "1 * (cs ! i + 3) \<le> block_count cs i * (cs ! i + 3)"
        by (rule mult_le_mono1[OF le1])
      then have "cs ! i + 3 \<le> partition_bytes cs i" by (simp only: st0(1) mult_1)
      then have "4 \<le> ?ps" using bs1 unfolding ps by linarith
      then have p3: "(p + 3) mod 65536 = p + 3" using fit by simp
      have hd: "freelist_head_arr s' i = p + 3"
        using fr p3 by (simp add: place_partition_def)
      have here: "1 \<le> cs ! i \<and> cs ! i \<le> 65533 \<and> cursor cs (Suc i) \<le> 65536"
        using sz bs cS fit by simp
      have split: "(\<forall>m. i \<le> m \<and> m < n \<longrightarrow> P m) \<longleftrightarrow> (P i \<and> (\<forall>m. i + 1 \<le> m \<and> m < n \<longrightarrow> P m))"
        for P
      proof
        assume a: "\<forall>m. i \<le> m \<and> m < n \<longrightarrow> P m"
        show "P i \<and> (\<forall>m. i + 1 \<le> m \<and> m < n \<longrightarrow> P m)" using a lt by simp
      next
        assume a: "P i \<and> (\<forall>m. i + 1 \<le> m \<and> m < n \<longrightarrow> P m)"
        show "\<forall>m. i \<le> m \<and> m < n \<longrightarrow> P m"
        proof (intro allI impI)
          fix m assume "i \<le> m \<and> m < n"
          then show "P m" using a by (cases "m = i") auto
        qed
      qed
      show ?thesis
        unfolding split[of "\<lambda>m. 1 \<le> cs ! m \<and> cs ! m \<le> 65533 \<and> cursor cs (Suc m) \<le> 65536"]
                  split[of "\<lambda>m. freelist_head_arr s' m = cursor cs m + 3 \<and>
                  threaded (g_pool_heap s') m (cursor cs m) (cs ! m + 3) (block_count cs m)"]
        using IH here hd th Suc.prems(2) by blast
    qed
  qed
qed

subsection \<open>The sort\<close>

lemma qsort_cmp_small:
  assumes "a < 2147483648" "b < 2147483648"
  shows "qsort_cmp a b = int b - int a"
proof -
  have "(word_of_nat b :: 32 word) - word_of_nat a = word_of_int (int b - int a)"
    by simp
  then have "qsort_cmp a b = signed_take_bit 31 (int b - int a)"
    by (simp only: qsort_cmp_def signed_of_int) simp
  also have "\<dots> = int b - int a"
    using assms by (intro signed_take_bit_int_eq_self) simp_all
  finally show ?thesis .
qed

lemma mset_qsort_insert: "mset (qsort_insert cmp x ys) = add_mset x (mset ys)"
  by (induction ys) simp_all

lemma mset_qsort: "mset (qsort cmp xs) = mset xs"
  by (induction xs) (simp_all add: mset_qsort_insert)

lemma set_qsort: "set (qsort cmp xs) = set xs"
  using mset_qsort[of cmp xs] by (metis set_mset_mset)

lemma length_qsort: "length (qsort cmp xs) = length xs"
  using mset_qsort[of cmp xs] by (metis size_mset)

lemma sorted_qsort_insert:
  assumes "x < 2147483648" "\<forall>y\<in>set ys. y < 2147483648" "sorted_wrt (\<ge>) ys"
  shows "sorted_wrt (\<ge>) (qsort_insert qsort_cmp x ys)"
  using assms
proof (induction ys)
  case Nil
  then show ?case by simp
next
  case (Cons y ys)
  have c: "qsort_cmp x y = int y - int x" using Cons.prems by (simp add: qsort_cmp_small)
  have s: "set (qsort_insert qsort_cmp x ys) = insert x (set ys)"
    using mset_qsort_insert[of qsort_cmp x ys] by (metis set_mset_mset set_mset_add_mset_insert)
  show ?case
  proof (cases "y \<le> x")
    case True
    then show ?thesis using Cons.prems c by auto
  next
    case False
    then show ?thesis using Cons c s by auto
  qed
qed

lemma sorted_qsort:
  "\<forall>x\<in>set xs. x < 2147483648 \<Longrightarrow> sorted_wrt (\<ge>) (qsort qsort_cmp xs)"
proof (induction xs)
  case Nil
  then show ?case by simp
next
  case (Cons x xs)
  then show ?case by (simp add: sorted_qsort_insert set_qsort)
qed

lemma qsort_sort_desc:
  assumes "\<forall>x\<in>set xs. x < 2147483648"
  shows "qsort qsort_cmp xs = sort_desc xs"
proof -
  have "sorted (rev (qsort qsort_cmp xs))"
    using sorted_qsort[OF assms] by (simp add: sorted_wrt_rev)
  moreover have "mset (rev (qsort qsort_cmp xs)) = mset xs" by (simp add: mset_qsort)
  ultimately have "sort xs = rev (qsort qsort_cmp xs)" by (rule properties_for_sort[rotated])
  then show ?thesis by (simp add: sort_desc_def)
qed

subsection \<open>pool\_init as a whole\<close>

lemma array_prefix_store: "array_prefix (array_store ys arr) (length ys) = ys"
  by (rule nth_equalityI) (simp_all add: array_prefix_def array_store_def)

lemma sizes_valid_small: "sizes_valid cs \<Longrightarrow> \<forall>x\<in>set cs. x < 2147483648"
  by (auto simp: sizes_valid_def)

lemma sizes_valid_nth: "sizes_valid cs \<longleftrightarrow> (\<forall>m<length cs. 1 \<le> cs ! m \<and> cs ! m \<le> 65533)"
  by (auto simp: sizes_valid_def all_set_conv_all_nth)

lemma array_store_store:
  "length ys = length zs \<Longrightarrow> array_store ys (array_store zs arr) = array_store ys arr"
  by (auto simp: array_store_def)

lemma pool_init_unfold:
  assumes "1 \<le> n" "n \<le> 255" "n \<le> length xs"
  shows "pool_init (Some xs) n s =
         Some (init_loop 0 n 65536 0 (sorted_state (qsort qsort_cmp (take n xs)) s))"
proof -
  have l: "length (take n xs) = n" using assms by simp
  have p: "array_prefix (array_store (take n xs) (sorted_block_size_arr s)) n = take n xs"
    using array_prefix_store[of "take n xs" "sorted_block_size_arr s"] l by simp
  have q: "length (qsort qsort_cmp (take n xs)) = n" by (simp only: length_qsort l)
  have st: "array_store (qsort qsort_cmp (take n xs))
              (array_store (take n xs) (sorted_block_size_arr s))
            = array_store (qsort qsort_cmp (take n xs)) (sorted_block_size_arr s)"
    by (rule array_store_store) (simp only: q l)
  show ?thesis
    using assms by (simp add: pool_init_def Let_def p st sorted_state_def q)
qed

lemma pool_init_result:
  assumes "1 \<le> n" "n \<le> 255" "n \<le> length xs"
    and "pool_init (Some xs) n s = Some (ok, s')"
  defines "cs \<equiv> qsort qsort_cmp (take n xs)"
  shows "(ok \<longleftrightarrow> sizes_valid cs \<and> layout_fits cs)"
    and "ok \<Longrightarrow> (\<forall>m<n. freelist_head_arr s' m = cursor cs m + 3 \<and>
                  threaded (g_pool_heap s') m (cursor cs m) (cs ! m + 3) (block_count cs m))"
    and "block_size_count_var s' = n" "g_pool_heap_start s' = Heap 0"
    and "\<forall>j<n. sorted_block_size_arr s' j = cs ! j"
    and "\<forall>j\<ge>n. sorted_block_size_arr s' j = sorted_block_size_arr s j"
    and "\<forall>j\<ge>n. freelist_head_arr s' j = freelist_head_arr s j"
proof -
  let ?s3 = "sorted_state cs s"
  have len: "length cs = n" using assms(3) by (simp add: cs_def length_qsort min_def)
  have il: "init_loop 0 n (65536 - 0) 0 ?s3 = (ok, s')"
    using assms(4) pool_init_unfold[OF assms(1-3), of s] by (simp add: cs_def)
  have srt: "\<forall>j<n. sorted_block_size_arr ?s3 j = cs ! j"
    by (simp add: sorted_state_def array_store_def len)
  have c0: "0 = cursor cs 0" by simp
  note L = init_loop_laid[OF len assms(2) srt c0 _ il]
  note F = init_loop_frame[OF il]
  show "(ok \<longleftrightarrow> sizes_valid cs \<and> layout_fits cs)"
    using L by (auto simp: sizes_valid_nth layout_fits_cursor len simp del: cursor.simps)
  show "ok \<Longrightarrow> (\<forall>m<n. freelist_head_arr s' m = cursor cs m + 3 \<and>
                  threaded (g_pool_heap s') m (cursor cs m) (cs ! m + 3) (block_count cs m))"
    using L by simp
  show "block_size_count_var s' = n" "g_pool_heap_start s' = Heap 0"
    using F by (simp_all add: sorted_state_def len)
  show "\<forall>j<n. sorted_block_size_arr s' j = cs ! j"
    using F srt by simp
  show "\<forall>j\<ge>n. sorted_block_size_arr s' j = sorted_block_size_arr s j"
    using F by (simp add: sorted_state_def array_store_def len)
  show "\<forall>j\<ge>n. freelist_head_arr s' j = freelist_head_arr s j"
    using F by (simp add: sorted_state_def)
qed

subsection \<open>Free lists and the blocks of the layout\<close>

lemma free_chain_unique: "free_chain h off ps \<Longrightarrow> free_chain h off qs \<Longrightarrow> ps = qs"
proof (induction ps arbitrary: off qs)
  case Nil
  then show ?case by (cases qs) auto
next
  case (Cons p ps)
  then show ?case by (cases qs) auto
qed

lemma free_chain_cong:
  "free_chain h off ps \<Longrightarrow>
   \<forall>p\<in>set ps. get_next_freelist_offset h' (p - 3) = get_next_freelist_offset h (p - 3) \<Longrightarrow>
   free_chain h' off ps"
  by (induction ps arbitrary: off) auto

lemma class_blocks_nth:
  "j < block_count cs i \<Longrightarrow> class_blocks cs i ! j = cursor cs i + 3 + j * (cs ! i + 3)"
  by (simp add: class_blocks_def)

lemma length_class_blocks: "length (class_blocks cs i) = block_count cs i"
  by (simp add: class_blocks_def)

lemma in_class_blocks:
  "p \<in> set (class_blocks cs i) \<longleftrightarrow>
   (\<exists>j<block_count cs i. p = cursor cs i + 3 + j * (cs ! i + 3))"
  by (auto simp: class_blocks_def)

lemma class_blocks_range:
  assumes "p \<in> set (class_blocks cs i)"
  shows "cursor cs i + 3 \<le> p \<and> p + cs ! i \<le> cursor cs (Suc i)"
proof -
  obtain j where j: "j < block_count cs i" "p = cursor cs i + 3 + j * (cs ! i + 3)"
    using assms in_class_blocks by blast
  have "Suc j * (cs ! i + 3) \<le> block_count cs i * (cs ! i + 3)"
    using j(1) by (intro mult_le_mono1) simp
  then have "j * (cs ! i + 3) + (cs ! i + 3) \<le> partition_bytes cs i"
    using partition_bytes_stride[of cs i] by simp
  then show ?thesis using j(2) by (simp add: cursor_Suc del: cursor.simps)
qed

lemma distinct_class_blocks: "distinct (class_blocks cs i)"
  by (auto simp: class_blocks_def distinct_map inj_on_def)

lemma class_blocks_apart_same:
  assumes "p \<in> set (class_blocks cs i)" "q \<in> set (class_blocks cs i)" "p < q" "0 < cs ! i"
  shows "p + 4 \<le> q"
proof -
  let ?T = "cs ! i + 3"
  obtain a where a: "p = cursor cs i + 3 + a * ?T" using assms(1) in_class_blocks by blast
  obtain b where b: "q = cursor cs i + 3 + b * ?T" using assms(2) in_class_blocks by blast
  have "a * ?T < b * ?T" using assms(3) a b by simp
  then have "a < b" by (simp add: mult_less_cancel2)
  then have "Suc a * ?T \<le> b * ?T" by (intro mult_le_mono1) simp
  then show ?thesis using a b assms(4) by simp
qed

lemma class_blocks_apart_diff:
  assumes "p \<in> set (class_blocks cs i)" "q \<in> set (class_blocks cs j)" "i < j" "0 < cs ! i"
  shows "p + 4 \<le> q"
proof -
  have "p + cs ! i \<le> cursor cs (Suc i)" using class_blocks_range[OF assms(1)] by simp
  also have "\<dots> \<le> cursor cs j" using assms(3) by (intro cursor_mono) simp
  also have "cursor cs j + 3 \<le> q" using class_blocks_range[OF assms(2)] by simp
  finally show ?thesis using assms(4) by simp
qed

lemma class_blocks_apart:
  assumes "sizes_valid cs" "i < length cs" "j < length cs"
    and "p \<in> set (class_blocks cs i)" "q \<in> set (class_blocks cs j)" "p \<noteq> q"
  shows "p + 4 \<le> q \<or> q + 4 \<le> p"
proof -
  have pos: "0 < cs ! i" "0 < cs ! j" using assms(1-3) by (auto simp: sizes_valid_nth)
  consider "i < j" | "j < i" | "i = j" by linarith
  then show ?thesis
  proof cases
    case 1
    then show ?thesis using class_blocks_apart_diff[OF assms(4,5) _ pos(1)] by simp
  next
    case 2
    then show ?thesis using class_blocks_apart_diff[OF assms(5,4) _ pos(2)] by simp
  next
    case 3
    then show ?thesis
      using class_blocks_apart_same[of p cs i q] class_blocks_apart_same[of q cs i p]
        assms(4,5,6) pos by (cases "p < q") auto
  qed
qed

lemma class_blocks_disjoint:
  assumes "sizes_valid cs" "i < length cs" "j < length cs" "i \<noteq> j"
    and "p \<in> set (class_blocks cs i)"
  shows "p \<notin> set (class_blocks cs j)"
proof
  assume q: "p \<in> set (class_blocks cs j)"
  have pos: "0 < cs ! i" "0 < cs ! j" using assms(1-3) by (auto simp: sizes_valid_nth)
  consider "i < j" | "j < i" using assms(4) by linarith
  then show False
  proof cases
    case 1
    then show ?thesis using class_blocks_apart_diff[OF assms(5) q _ pos(1)] by simp
  next
    case 2
    then show ?thesis using class_blocks_apart_diff[OF q assms(5) _ pos(2)] by simp
  qed
qed

lemma class_blocks_bounds:
  assumes "layout_fits cs" "i < length cs" "p \<in> set (class_blocks cs i)" "0 < cs ! i"
  shows "3 \<le> p \<and> p < 65536"
proof -
  have "cursor cs (Suc i) \<le> 65536" using assms(1,2) by (simp add: layout_fits_cursor del: cursor.simps)
  then show ?thesis using class_blocks_range[OF assms(3)] assms(4) by simp
qed

lemma threaded_chain_from:
  assumes "threaded h i st T k" "m \<le> k"
  shows "free_chain h (if m < k then st + 3 + m * T else 0) (map (\<lambda>j. st + 3 + j * T) [m..<k])"
  using assms(2)
proof (induction "k - m" arbitrary: m)
  case 0
  then show ?case by simp
next
  case (Suc d)
  then have lt: "m < k" by simp
  have nx: "get_next_freelist_offset h (st + m * T) = (if m + 1 < k then st + (m + 1) * T + 3 else 0)"
    using assms(1) lt unfolding threaded_def by blast
  have IH: "free_chain h (if Suc m < k then st + 3 + Suc m * T else 0)
              (map (\<lambda>j. st + 3 + j * T) [Suc m..<k])"
    using Suc.hyps(1)[of "Suc m"] Suc.hyps(2) lt by simp
  have u: "[m..<k] = m # [Suc m..<k]" using lt by (simp add: upt_conv_Cons)
  have sub: "st + 3 + m * T - 3 = st + m * T" by simp
  have eq: "(if m + 1 < k then st + (m + 1) * T + 3 else 0)
            = (if Suc m < k then st + 3 + Suc m * T else 0)" by simp
  have "free_chain h (st + 3 + m * T) (map (\<lambda>j. st + 3 + j * T) (m # [Suc m..<k]))"
    using IH by (simp only: list.map free_chain.simps sub nx eq) simp
  then show ?case using lt by (simp only: u if_True)
qed

lemma threaded_chain:
  assumes "threaded h i (cursor cs i) (cs ! i + 3) (block_count cs i)" "0 < block_count cs i"
  shows "free_chain h (cursor cs i + 3) (class_blocks cs i)"
  using threaded_chain_from[OF assms(1), of 0] assms(2) by (simp add: class_blocks_def)

lemma threaded_partition:
  assumes "threaded h i (cursor cs i) (cs ! i + 3) (block_count cs i)"
    and "p \<in> set (class_blocks cs i)"
  shows "get_partition_number h (p - 3) = i"
proof -
  obtain j where j: "j < block_count cs i" "p = cursor cs i + 3 + j * (cs ! i + 3)"
    using assms(2) in_class_blocks by blast
  then have "p - 3 = cursor cs i + j * (cs ! i + 3)" by simp
  then show ?thesis using assms(1) j(1) unfolding threaded_def by simp
qed

subsection \<open>pool\_malloc under the invariant\<close>

lemma find_partition_Some:
  "find_partition k n s = Some i \<Longrightarrow>
   i < k \<and> freelist_head_arr s i \<noteq> 0 \<and> n \<le> sorted_block_size_arr s i \<and>
   (\<forall>j. i < j \<and> j < k \<longrightarrow> \<not> (freelist_head_arr s j \<noteq> 0 \<and> n \<le> sorted_block_size_arr s j))"
proof (induction k)
  case 0
  then show ?case by simp
next
  case (Suc k)
  show ?case
  proof (cases "freelist_head_arr s k \<noteq> 0 \<and> n \<le> sorted_block_size_arr s k")
    case True
    then show ?thesis using Suc.prems by auto
  next
    case False
    then have "find_partition k n s = Some i" using Suc.prems by auto
    from Suc.IH[OF this] show ?thesis using False
      by (metis less_Suc_eq)
  qed
qed

lemma find_partition_None:
  "find_partition k n s = None \<longleftrightarrow>
   (\<forall>j<k. \<not> (freelist_head_arr s j \<noteq> 0 \<and> n \<le> sorted_block_size_arr s j))"
  by (induction k) (auto simp: less_Suc_eq)

lemma pool_malloc_NULL:
  "n = 0 \<or> sorted_block_size_arr s 0 < n \<or> find_partition (block_size_count_var s) n s = None \<Longrightarrow>
   pool_malloc n s = Some (NULL, s)"
  by (auto simp: pool_malloc_def)

lemma pool_malloc_pop:
  assumes "n \<noteq> 0" "n \<le> sorted_block_size_arr s 0"
    and "find_partition (block_size_count_var s) n s = Some i" "i < 256"
    and "g_pool_heap_start s = Heap 0" "3 \<le> freelist_head_arr s i" "freelist_head_arr s i \<le> 65536"
  shows "pool_malloc n s =
         Some (Heap (freelist_head_arr s i),
               s\<lparr>freelist_head_arr := (freelist_head_arr s)
                   (i := get_next_freelist_offset (g_pool_heap s) (freelist_head_arr s i - 3))\<rparr>)"
  using assms by (simp add: pool_malloc_def Let_def)

lemma held_of_Cons:
  "held_of i ((p, c) # held) = (if c = i then p # held_of i held else held_of i held)"
  by (simp add: held_of_def)

lemma held_of_remove1_other:
  "c \<noteq> i \<Longrightarrow> held_of i (remove1 (p, c) held) = held_of i held"
  by (induction held) (auto simp: held_of_def)

lemma held_of_remove1_same:
  "(p, c) \<in> set held \<Longrightarrow>
   add_mset p (mset (held_of c (remove1 (p, c) held))) = mset (held_of c held)"
  by (induction held) (auto simp: held_of_def)

lemma held_of_mem: "(p, c) \<in> set held \<Longrightarrow> p \<in> set (held_of c held)"
  by (force simp: held_of_def)

lemma mset_split_distinct:
  assumes "mset xs + mset ys = mset zs" "distinct zs"
  shows "distinct xs" "distinct ys" "set xs \<inter> set ys = {}" "set xs \<union> set ys = set zs"
proof -
  have m: "mset (xs @ ys) = mset zs" using assms(1) by simp
  then have "distinct (xs @ ys)" using assms(2) by (metis mset_eq_imp_distinct_iff)
  then show "distinct xs" "distinct ys" "set xs \<inter> set ys = {}" by auto
  show "set xs \<union> set ys = set zs" using mset_eq_setD[OF m] by simp
qed

lemma pool_inv_malloc:
  assumes inv: "pool_inv cs s held"
  shows "\<exists>r s'. pool_malloc n s = Some (r, s') \<and>
           (case r of
              NULL \<Rightarrow> s' = s \<and> (n = 0 \<or> sorted_block_size_arr s 0 < n \<or>
                         find_partition (length cs) n s = None)
            | Heap p \<Rightarrow> n \<noteq> 0 \<and> n \<le> sorted_block_size_arr s 0 \<and>
                (\<exists>i. find_partition (length cs) n s = Some i \<and> p = freelist_head_arr s i \<and>
                   s' = s\<lparr>freelist_head_arr := (freelist_head_arr s)
                           (i := get_next_freelist_offset (g_pool_heap s) (p - 3))\<rparr> \<and>
                   pool_inv cs s' ((p, i) # held)))"
proof (cases "n = 0 \<or> sorted_block_size_arr s 0 < n \<or> find_partition (length cs) n s = None")
  case True
  have cnt: "block_size_count_var s = length cs" using inv by (simp add: pool_inv_def)
  have "pool_malloc n s = Some (NULL, s)" using True cnt by (intro pool_malloc_NULL) simp
  then show ?thesis using True by simp
next
  case False
  then obtain i where fp: "find_partition (length cs) n s = Some i" by auto
  have n0: "n \<noteq> 0" "n \<le> sorted_block_size_arr s 0" using False by auto
  note F = find_partition_Some[OF fp]
  have iN: "i < length cs" using F by simp
  have cnt: "block_size_count_var s = length cs" and hs: "g_pool_heap_start s = Heap 0"
    and N: "length cs \<le> 255" and sv: "sizes_valid cs" and lf: "layout_fits cs"
    using inv by (simp_all add: pool_inv_def)
  obtain ps where ps: "free_chain (g_pool_heap s) (freelist_head_arr s i) ps"
      "mset ps + mset (held_of i held) = mset (class_blocks cs i)"
    using inv iN unfolding pool_inv_def by blast
  let ?p = "freelist_head_arr s i"
  obtain ps' where ps': "ps = ?p # ps'" using ps(1) F by (cases ps) auto
  have pin: "?p \<in> set (class_blocks cs i)"
    using mset_split_distinct(4)[OF ps(2) distinct_class_blocks] ps' by auto
  have pos: "0 < cs ! i" using sv iN by (auto simp: sizes_valid_nth)
  have pb: "3 \<le> ?p \<and> ?p < 65536" by (rule class_blocks_bounds[OF lf iN pin pos])
  let ?nx = "get_next_freelist_offset (g_pool_heap s) (?p - 3)"
  let ?s' = "s\<lparr>freelist_head_arr := (freelist_head_arr s)(i := ?nx)\<rparr>"
  have m: "pool_malloc n s = Some (Heap ?p, ?s')"
    using n0 fp cnt iN N hs pb by (intro pool_malloc_pop) simp_all
  have ch': "free_chain (g_pool_heap s) ?nx ps'" using ps(1) ps' by simp
  have inv': "pool_inv cs ?s' ((?p, i) # held)"
    unfolding pool_inv_def
  proof (intro conjI allI impI ballI)
    fix j assume j: "j < length cs"
    show "\<exists>qs. free_chain (g_pool_heap ?s') (freelist_head_arr ?s' j) qs \<and>
            mset qs + mset (held_of j ((?p, i) # held)) = mset (class_blocks cs j)"
    proof (cases "j = i")
      case True
      have "mset ps' + mset (held_of i ((?p, i) # held)) = mset (class_blocks cs i)"
        using ps(2) ps' by (simp add: held_of_Cons)
      then show ?thesis using ch' True by auto
    next
      case False
      obtain qs where "free_chain (g_pool_heap s) (freelist_head_arr s j) qs"
         "mset qs + mset (held_of j held) = mset (class_blocks cs j)"
        using inv j unfolding pool_inv_def by blast
      then show ?thesis using False by (auto simp: held_of_Cons)
    qed
  next
    fix e assume "e \<in> set ((?p, i) # held)"
    then show "snd e < length cs" using inv iN by (auto simp: pool_inv_def)
  qed (use inv in \<open>simp_all add: pool_inv_def\<close>)
  show ?thesis using m n0 fp inv' by simp
qed

subsection \<open>pool\_free under the invariant\<close>

lemma pool_free_push:
  assumes "3 \<le> p" "p \<le> 65536" "get_partition_number (g_pool_heap s) (p - 3) = c" "c < 255"
    and "g_pool_heap_start s = Heap 0"
  shows "pool_free (Heap p) s =
         Some (s\<lparr>g_pool_heap := set_next_freelist_offset (g_pool_heap s) (p - 3)
                                  (freelist_head_arr s c),
                 freelist_head_arr := (freelist_head_arr s)(c := p mod 65536)\<rparr>)"
  using assms by (simp add: pool_free_def Let_def)

lemma chain_head_bound:
  assumes "free_chain h off ps" "\<forall>q\<in>set ps. q < 65536"
  shows "off < 65536"
  using assms by (cases ps) auto

lemma pool_inv_free:
  assumes inv: "pool_inv cs s held" and hd: "(p, c) \<in> set held"
  shows "\<exists>s'. pool_free (Heap p) s = Some s' \<and>
           s' = s\<lparr>g_pool_heap := set_next_freelist_offset (g_pool_heap s) (p - 3)
                                  (freelist_head_arr s c),
                  freelist_head_arr := (freelist_head_arr s)(c := p)\<rparr> \<and>
           pool_inv cs s' (remove1 (p, c) held)"
proof -
  have cN: "c < length cs" using inv hd by (force simp: pool_inv_def)
  have cnt: "block_size_count_var s = length cs" and hs: "g_pool_heap_start s = Heap 0"
    and N: "length cs \<le> 255" and sv: "sizes_valid cs" and lf: "layout_fits cs"
    using inv by (simp_all add: pool_inv_def)
  have chains: "\<And>j. j < length cs \<Longrightarrow> \<exists>ps. free_chain (g_pool_heap s) (freelist_head_arr s j) ps \<and>
          mset ps + mset (held_of j held) = mset (class_blocks cs j)"
    using inv unfolding pool_inv_def by blast
  have parts: "\<And>j q. j < length cs \<Longrightarrow> q \<in> set (class_blocks cs j) \<Longrightarrow>
          get_partition_number (g_pool_heap s) (q - 3) = j"
    using inv unfolding pool_inv_def by blast
  have pos: "\<And>j. j < length cs \<Longrightarrow> 0 < cs ! j" using sv by (auto simp: sizes_valid_nth)
  obtain ps where ps: "free_chain (g_pool_heap s) (freelist_head_arr s c) ps"
      "mset ps + mset (held_of c held) = mset (class_blocks cs c)"
    using chains[OF cN] by blast
  note sp = mset_split_distinct[OF ps(2) distinct_class_blocks]
  have ph: "p \<in> set (held_of c held)" by (rule held_of_mem[OF hd])
  have pin: "p \<in> set (class_blocks cs c)" using sp(4) ph by auto
  have pnot: "p \<notin> set ps" using sp(3) ph by auto
  have pb: "3 \<le> p \<and> p < 65536" by (rule class_blocks_bounds[OF lf cN pin pos[OF cN]])
  have pn: "get_partition_number (g_pool_heap s) (p - 3) = c" by (rule parts[OF cN pin])
  let ?h' = "set_next_freelist_offset (g_pool_heap s) (p - 3) (freelist_head_arr s c)"
  let ?s' = "s\<lparr>g_pool_heap := ?h', freelist_head_arr := (freelist_head_arr s)(c := p)\<rparr>"
  have c255: "c < 255" using cN N by simp
  have pmod: "p mod 65536 = p" using pb by simp
  have fr: "pool_free (Heap p) s = Some ?s'"
    using pool_free_push[OF _ _ pn c255 hs] pb pmod by simp
  have hb: "freelist_head_arr s c < 65536"
  proof (rule chain_head_bound[OF ps(1)], intro ballI)
    fix q assume "q \<in> set ps"
    then have "q \<in> set (class_blocks cs c)" using sp(4) by auto
    then show "q < 65536" using class_blocks_bounds[OF lf cN _ pos[OF cN]] by simp
  qed
  have far: "get_next_freelist_offset ?h' (q - 3) = get_next_freelist_offset (g_pool_heap s) (q - 3)"
    if q: "q \<in> set (class_blocks cs j)" "j < length cs" "q \<noteq> p" for q j
  proof -
    have a: "q + 4 \<le> p \<or> p + 4 \<le> q" by (rule class_blocks_apart[OF sv q(2) cN q(1) pin q(3)])
    have "3 \<le> q" using class_blocks_bounds[OF lf q(2) q(1) pos[OF q(2)]] by simp
    then have "(q - 3) + 1 < p - 3 \<or> (p - 3) + 1 < q - 3" using a pb by linarith
    then show ?thesis by (rule get_next_set_next_other)
  qed
  have inv': "pool_inv cs ?s' (remove1 (p, c) held)"
    unfolding pool_inv_def
  proof (intro conjI allI impI ballI)
    fix j q assume j: "j < length cs" and q: "q \<in> set (class_blocks cs j)"
    have q3: "3 \<le> q" using class_blocks_bounds[OF lf j q pos[OF j]] by simp
    have "q + 4 \<le> p \<or> p + 4 \<le> q \<or> q = p"
      using class_blocks_apart[OF sv j cN q pin] by blast
    then have "(q - 3) + 2 \<noteq> p - 3 \<and> (q - 3) + 1 \<noteq> p - 3" using q3 pb by linarith
    then have "get_partition_number ?h' (q - 3) = get_partition_number (g_pool_heap s) (q - 3)"
      by (intro get_partition_set_next) simp_all
    then show "get_partition_number (g_pool_heap ?s') (q - 3) = j" using parts[OF j q] by simp
  next
    fix j assume j: "j < length cs"
    show "\<exists>qs. free_chain (g_pool_heap ?s') (freelist_head_arr ?s' j) qs \<and>
            mset qs + mset (held_of j (remove1 (p, c) held)) = mset (class_blocks cs j)"
    proof (cases "j = c")
      case True
      have "\<forall>q\<in>set ps. get_next_freelist_offset ?h' (q - 3)
                = get_next_freelist_offset (g_pool_heap s) (q - 3)"
      proof
        fix q assume qs: "q \<in> set ps"
        then have "q \<in> set (class_blocks cs c)" using sp(4) by auto
        moreover have "q \<noteq> p" using qs pnot by auto
        ultimately show "get_next_freelist_offset ?h' (q - 3)
                = get_next_freelist_offset (g_pool_heap s) (q - 3)" using far cN by blast
      qed
      then have c1: "free_chain ?h' (freelist_head_arr s c) ps"
        by (rule free_chain_cong[OF ps(1)])
      have "get_next_freelist_offset ?h' (p - 3) = freelist_head_arr s c mod 65536"
        by (rule get_set_next_same)
      then have nx: "get_next_freelist_offset ?h' (p - 3) = freelist_head_arr s c"
        using hb by simp
      have p0: "p \<noteq> 0" using pb by simp
      have ch: "free_chain ?h' p (p # ps)" using c1 nx p0 by simp
      have "mset (p # ps) + mset (held_of c (remove1 (p, c) held)) = mset (class_blocks cs c)"
        using ps(2) held_of_remove1_same[OF hd] by (metis add_mset_add_single mset.simps(2) union_mset_add_mset_left union_mset_add_mset_right)
      then show ?thesis using ch True by (intro exI[of _ "p # ps"]) simp
    next
      case False
      obtain qs where qs: "free_chain (g_pool_heap s) (freelist_head_arr s j) qs"
         "mset qs + mset (held_of j held) = mset (class_blocks cs j)"
        using chains[OF j] by blast
      have sub: "set qs \<subseteq> set (class_blocks cs j)"
        using mset_split_distinct(4)[OF qs(2) distinct_class_blocks] by auto
      have "\<forall>q\<in>set qs. get_next_freelist_offset ?h' (q - 3)
                = get_next_freelist_offset (g_pool_heap s) (q - 3)"
      proof
        fix q assume "q \<in> set qs"
        then have qj: "q \<in> set (class_blocks cs j)" using sub by auto
        then have "q \<noteq> p" using class_blocks_disjoint[OF sv j cN False qj] pin by auto
        then show "get_next_freelist_offset ?h' (q - 3)
                = get_next_freelist_offset (g_pool_heap s) (q - 3)" using far qj j by blast
      qed
      then have "free_chain ?h' (freelist_head_arr s j) qs"
        by (rule free_chain_cong[OF qs(1)])
      then show ?thesis using qs(2) False held_of_remove1_other[of c j p held]
        by (intro exI[of _ qs]) simp
    qed
  next
    fix e assume "e \<in> set (remove1 (p, c) held)"
    then have "e \<in> set held" using set_remove1_subset[of "(p, c)" held] by blast
    then show "snd e < length cs" using inv by (auto simp: pool_inv_def)
  qed (use inv in \<open>simp_all add: pool_inv_def\<close>)
  show ?thesis using fr inv' by simp
qed

subsection \<open>Reachable states\<close>

lemma pool_init_guard:
  "n = 0 \<or> bs = None \<or> 255 < n \<Longrightarrow> pool_init bs n s = Some (False, s)"
  by (simp add: pool_init_def)

lemma pool_init_SomeD:
  assumes "pool_init bs n s = Some (True, s')"
  shows "\<exists>xs. bs = Some xs \<and> 1 \<le> n \<and> n \<le> 255 \<and> n \<le> length xs"
proof -
  have g: "\<not> (n = 0 \<or> bs = None \<or> 255 < n)"
  proof
    assume "n = 0 \<or> bs = None \<or> 255 < n"
    then have "pool_init bs n s = Some (False, s)" by (rule pool_init_guard)
    then show False using assms by simp
  qed
  then obtain xs where xs: "bs = Some xs" by auto
  have "\<not> length xs < n" using assms g xs by (auto simp: pool_init_def)
  then show ?thesis using g xs by auto
qed

lemma sizes_valid_mset: "mset cs = mset ds \<Longrightarrow> sizes_valid cs = sizes_valid ds"
  using mset_eq_setD[of cs ds] by (simp add: sizes_valid_def)

lemma pool_init_sorted:
  assumes "1 \<le> n" "n \<le> 255" "n \<le> length xs" "pool_init (Some xs) n s = Some (True, s')"
  shows "qsort qsort_cmp (take n xs) = sort_desc (take n xs)" "sizes_valid (take n xs)"
proof -
  let ?cs = "qsort qsort_cmp (take n xs)"
  have "sizes_valid ?cs" using pool_init_result(1)[OF assms] by simp
  then show v: "sizes_valid (take n xs)" using sizes_valid_mset[OF mset_qsort] by blast
  show "?cs = sort_desc (take n xs)"
    by (rule qsort_sort_desc[OF sizes_valid_small[OF v]])
qed

lemma sorted_wrt_sort_desc: "sorted_wrt (\<ge>) (sort_desc xs)"
proof -
  have "sorted (rev (sort_desc xs))" by (simp add: sort_desc_def)
  then show ?thesis by (simp add: sorted_wrt_rev)
qed

lemma length_sort_desc: "length (sort_desc xs) = length xs"
  by (simp add: sort_desc_def)

lemma mset_sort_desc: "mset (sort_desc xs) = mset xs"
  by (simp add: sort_desc_def)

lemma pool_init_inv:
  assumes "pool_init (Some xs) n s0 = Some (True, s1)"
  shows "pool_inv (sort_desc (take n xs)) s1 []"
    and "\<forall>i<n. freelist_head_arr s1 i = cursor (sort_desc (take n xs)) i + 3 \<and>
           threaded (g_pool_heap s1) i (cursor (sort_desc (take n xs)) i)
             (sort_desc (take n xs) ! i + 3) (block_count (sort_desc (take n xs)) i)"
    and "length (sort_desc (take n xs)) = n"
proof -
  let ?cs = "sort_desc (take n xs)"
  have r: "1 \<le> n" "n \<le> 255" "n \<le> length xs" using pool_init_SomeD[OF assms] by auto
  have q: "qsort qsort_cmp (take n xs) = ?cs" by (rule pool_init_sorted(1)[OF r assms])
  note R = pool_init_result[OF r assms, unfolded q]
  show len: "length ?cs = n" using r by (simp add: length_sort_desc)
  show laid: "\<forall>i<n. freelist_head_arr s1 i = cursor ?cs i + 3 \<and>
           threaded (g_pool_heap s1) i (cursor ?cs i) (?cs ! i + 3) (block_count ?cs i)"
    using R(2) by simp
  have ok: "sizes_valid ?cs" "layout_fits ?cs" using R(1) by simp_all
  show "pool_inv ?cs s1 []"
    unfolding pool_inv_def
  proof (intro conjI allI impI ballI)
    fix i p assume i: "i < length ?cs" and p: "p \<in> set (class_blocks ?cs i)"
    have "threaded (g_pool_heap s1) i (cursor ?cs i) (?cs ! i + 3) (block_count ?cs i)"
      using laid i len by simp
    then show "get_partition_number (g_pool_heap s1) (p - 3) = i"
      using p by (rule threaded_partition)
  next
    fix i assume i: "i < length ?cs"
    have t: "threaded (g_pool_heap s1) i (cursor ?cs i) (?cs ! i + 3) (block_count ?cs i)"
      and h: "freelist_head_arr s1 i = cursor ?cs i + 3"
      using laid i len by simp_all
    have "free_chain (g_pool_heap s1) (cursor ?cs i + 3) (class_blocks ?cs i)"
      using t partition_bytes_stride[of ?cs i] by (intro threaded_chain) simp_all
    then show "\<exists>ps. free_chain (g_pool_heap s1) (freelist_head_arr s1 i) ps \<and>
            mset ps + mset (held_of i []) = mset (class_blocks ?cs i)"
      using h by (intro exI[of _ "class_blocks ?cs i"]) (simp add: held_of_def)
  next
    fix j assume "j < length ?cs"
    then show "sorted_block_size_arr s1 j = ?cs ! j" using R(5) len by simp
  qed (use ok r len R(3,4) sorted_wrt_sort_desc in simp_all)
qed

lemma step_inv:
  assumes "pool_inv cs s held" "step x (s, held) = Some (s', held')"
  shows "pool_inv cs s' held'"
proof (cases x)
  case (Malloc n)
  obtain r t where m: "pool_malloc n s = Some (r, t)"
    and c: "case r of NULL \<Rightarrow> t = s \<and> (n = 0 \<or> sorted_block_size_arr s 0 < n \<or>
                         find_partition (length cs) n s = None)
            | Heap p \<Rightarrow> n \<noteq> 0 \<and> n \<le> sorted_block_size_arr s 0 \<and>
                (\<exists>i. find_partition (length cs) n s = Some i \<and> p = freelist_head_arr s i \<and>
                   t = s\<lparr>freelist_head_arr := (freelist_head_arr s)
                           (i := get_next_freelist_offset (g_pool_heap s) (p - 3))\<rparr> \<and>
                   pool_inv cs t ((p, i) # held))"
    using pool_inv_malloc[OF assms(1), of n] by blast
  have cnt: "block_size_count_var s = length cs" using assms(1) by (simp add: pool_inv_def)
  show ?thesis
  proof (cases r)
    case NULL
    then show ?thesis using assms m c Malloc by auto
  next
    case (Heap p)
    then show ?thesis using assms(2) m c Malloc cnt by auto
  qed
next
  case (Free q)
  show ?thesis
  proof (cases q)
    case NULL
    then show ?thesis using assms(2) Free by simp
  next
    case (Heap p)
    then obtain c where c: "map_of held p = Some c"
      using assms(2) Free by (auto split: option.splits)
    then have "(p, c) \<in> set held" by (rule map_of_SomeD)
    from pool_inv_free[OF assms(1) this] show ?thesis
      using assms(2) Free Heap c by auto
  qed
qed

lemma run_inv:
  "pool_inv cs s held \<Longrightarrow> run xs (s, held) = Some (s', held') \<Longrightarrow> pool_inv cs s' held'"
proof (induction xs arbitrary: s held)
  case Nil
  then show ?case by simp
next
  case (Cons x xs)
  then obtain t h where st: "step x (s, held) = Some (t, h)"
    by (auto split: option.splits)
  have "pool_inv cs t h" by (rule step_inv[OF Cons.prems(1) st])
  then show ?case using Cons.IH[of t h] Cons.prems(2) st by simp
qed

lemma reachable_inv:
  assumes "pool_init (Some xs) n s0 = Some (True, s1)" "run calls (s1, []) = Some (s, held)"
  shows "pool_inv (sort_desc (take n xs)) s held"
  using run_inv[OF pool_init_inv(1)[OF assms(1)] assms(2)] .

subsection \<open>The small instance\<close>

lemma example_insert_metadata:
  "insert_metadata 0 40003 40000 0 (\<lambda>_. 0) = (\<lambda>_. 0)"
  "insert_metadata 40003 60006 20000 (Suc 0) (\<lambda>_. 0) = example_heap"
  by (simp_all add: insert_metadata_step insert_metadata_done set_next_freelist_offset_def
        set_partition_number_def fun_eq_iff example_heap_def)

lemma example_init:
  "pool_init (Some [20000, 40000]) 2 pool_zero = Some (True, example_state 3 40006)"
proof -
  have s: "sorted_state [40000, 20000] pool_zero
           = \<lparr> g_pool_heap = (\<lambda>_. 0), freelist_head_arr = (\<lambda>_. 0),
               sorted_block_size_arr = array_store [40000, 20000] (\<lambda>_. 0),
               block_size_count_var = 2, g_pool_heap_start = Heap 0 \<rparr>"
    by (simp add: sorted_state_def pool_zero_def)
  have a0: "array_store [40000, 20000] (\<lambda>_. 0) 0 = 40000"
    and a1: "array_store [40000, 20000] (\<lambda>_. 0) (Suc 0) = 20000"
    by (simp_all add: array_store_def)
  have p0: "partition_size_of 65536 2 40000 = 40003"
    and p1: "partition_size_of 25533 (Suc 0) 20000 = 20003"
    by (simp_all add: partition_size_of_def MAX_of_def)
  have "init_loop 0 2 65536 0 (sorted_state [40000, 20000] pool_zero)
        = (True, example_state 3 40006)"
    unfolding s
    apply (subst init_loop.simps)
    apply (simp add: a0 p0 Let_def example_insert_metadata)
    apply (subst init_loop.simps)
    apply (simp add: a1 p1 Let_def example_insert_metadata)
    apply (subst init_loop.simps)
    apply (simp add: example_state_def)
    done
  then show ?thesis
    using pool_init_unfold[of 2 "[20000, 40000]" pool_zero] by (simp add: qsort_cmp_def)
qed

lemmas example_eval = example_state_def example_heap_def array_store_def pool_malloc_def
  pool_free_def get_next_freelist_offset_def get_partition_number_def
  set_next_freelist_offset_def Let_def

lemma example_malloc:
  "pool_malloc 20000 (example_state 3 40006) = Some (Heap 40006, example_state 3 0)"
  "pool_malloc 20000 (example_state 3 0) = Some (Heap 3, example_state 0 0)"
  "pool_malloc 20000 (example_state 0 40006) = Some (Heap 40006, example_state 0 0)"
  "pool_malloc 20000 (example_state 0 0) = Some (NULL, example_state 0 0)"
  "pool_malloc 30000 (example_state 3 40006) = Some (Heap 3, example_state 0 40006)"
  by (simp_all add: example_eval numeral_2_eq_2 fun_eq_iff)

lemma example_find:
  "find_partition 2 20000 (example_state 3 40006) = Some 1"
  "find_partition 2 20000 (example_state 3 0) = Some 0"
  by (simp_all add: example_eval numeral_2_eq_2)

lemma example_free:
  "pool_free (Heap 40006) (example_state 0 0) = Some (example_state 0 40006)"
  "pool_free (Heap 3) (example_state 0 40006) = Some (example_state 3 40006)"
  by (simp_all add: example_eval fun_eq_iff)

lemma example_count: "block_size_count_var (example_state a b) = 2"
  by (simp add: example_state_def)

lemma example_run:
  "run [Malloc 20000, Malloc 20000, Free (Heap 40006)] (example_state 3 40006, [])
   = Some (example_state 0 40006, [(3, 0)])"
  by (simp add: example_malloc example_find example_free example_count)

lemma example_partition_bytes:
  "partition_bytes_at 0 (Suc (Suc 0)) 40000 = 40003"
  "partition_bytes_at 40003 (Suc 0) 20000 = 20003"
  by (simp_all add: partition_bytes_at_def numeral_2_eq_2[symmetric])

lemma example_cursor:
  "cursor [40000, 20000] (Suc 0) = 40003" "cursor [40000, 20000] (Suc (Suc 0)) = 60006"
  by (simp_all add: example_partition_bytes)

lemma example_layout:
  "sort_desc [20000, 40000] = [40000, 20000]"
  "sizes_valid [20000, 40000]"
  "layout_fits [40000, 20000]"
  using example_cursor
  by (simp_all add: sort_desc_def sizes_valid_def layout_fits_cursor less_Suc_eq numeral_2_eq_2
       del: cursor.simps)

lemma example_blocks:
  "class_blocks [40000, 20000] 0 = [3]"
  "class_blocks [40000, 20000] (Suc 0) = [40006]"
  using example_cursor
  by (simp_all add: class_blocks_def block_count_def partition_bytes_def
        example_partition_bytes del: cursor.simps(2))

lemma sorted_desc_nth:
  "sorted_wrt (\<ge>) cs \<Longrightarrow> i \<le> j \<Longrightarrow> j < length cs \<Longrightarrow> cs ! j \<le> (cs ! i :: nat)"
  by (cases "i = j") (auto simp: sorted_wrt_iff_nth_less)

lemma failed_init_example:
  "pool_init (Some [40000, 30000]) 2 pool_zero = Some (False, failed_init_state)"
proof -
  have s: "sorted_state [40000, 30000] pool_zero
           = \<lparr> g_pool_heap = (\<lambda>_. 0), freelist_head_arr = (\<lambda>_. 0),
               sorted_block_size_arr = array_store [40000, 30000] (\<lambda>_. 0),
               block_size_count_var = 2, g_pool_heap_start = Heap 0 \<rparr>"
    by (simp add: sorted_state_def pool_zero_def)
  have a0: "array_store [40000, 30000] (\<lambda>_. 0) 0 = 40000"
    and a1: "array_store [40000, 30000] (\<lambda>_. 0) (Suc 0) = 30000"
    by (simp_all add: array_store_def)
  have p0: "partition_size_of 65536 2 40000 = 40003"
    and p1: "partition_size_of 25533 (Suc 0) 30000 = 30003"
    by (simp_all add: partition_size_of_def MAX_of_def)
  have "init_loop 0 2 65536 0 (sorted_state [40000, 30000] pool_zero)
        = (False, failed_init_state)"
    unfolding s
    apply (subst init_loop.simps)
    apply (simp add: a0 p0 Let_def example_insert_metadata)
    apply (subst init_loop.simps)
    apply (simp add: a1 p1 Let_def failed_init_state_def)
    done
  then show ?thesis
    using pool_init_unfold[of 2 "[40000, 30000]" pool_zero] by (simp add: qsort_cmp_def)
qed

lemma pool_init_not_None:
  assumes "pool_init (Some xs) n s = Some res" "1 \<le> n" "n \<le> 255"
  shows "n \<le> length xs"
  using assms by (auto simp: pool_init_def split: if_splits)

lemma find_partition_eq_Some:
  assumes "i < k" "freelist_head_arr s i \<noteq> 0" "n \<le> sorted_block_size_arr s i"
    and "\<forall>j. i < j \<and> j < k \<longrightarrow> \<not> (freelist_head_arr s j \<noteq> 0 \<and> n \<le> sorted_block_size_arr s j)"
  shows "find_partition k n s = Some i"
  using assms
proof (induction k)
  case 0
  then show ?case by simp
next
  case (Suc k)
  show ?case
  proof (cases "i = k")
    case True
    then show ?thesis using Suc.prems by simp
  next
    case False
    then have ik: "i < k" using Suc.prems(1) by simp
    have "\<not> (freelist_head_arr s k \<noteq> 0 \<and> n \<le> sorted_block_size_arr s k)"
      using Suc.prems(4) ik by simp
    moreover have "find_partition k n s = Some i"
      using Suc.IH[OF ik Suc.prems(2,3)] Suc.prems(4) by simp
    ultimately show ?thesis by auto
  qed
qed

subsection \<open>Counting allocations\<close>

lemma fitting_blocks_free_total: "fitting_blocks cs m = free_total cs m []"
proof -
  have "distinct (filter (\<lambda>j. m \<le> cs ! j) [0..<length cs])" by simp
  then have "fitting_blocks cs m = sum (block_count cs) (set (filter (\<lambda>j. m \<le> cs ! j) [0..<length cs]))"
    unfolding fitting_blocks_def by (rule sum_list_distinct_conv_sum_set)
  moreover have "set (filter (\<lambda>j. m \<le> cs ! j) [0..<length cs]) = {j. j < length cs \<and> m \<le> cs ! j}"
    by auto
  ultimately show ?thesis by (simp add: free_total_def held_of_def)
qed

lemma chain_length:
  assumes "pool_inv cs s held" "j < length cs"
  shows "\<exists>ps. free_chain (g_pool_heap s) (freelist_head_arr s j) ps \<and>
              length ps = block_count cs j - length (held_of j held) \<and>
              length (held_of j held) \<le> block_count cs j"
proof -
  obtain ps where ps: "free_chain (g_pool_heap s) (freelist_head_arr s j) ps"
      "mset ps + mset (held_of j held) = mset (class_blocks cs j)"
    using assms unfolding pool_inv_def by blast
  have "size (mset ps + mset (held_of j held)) = size (mset (class_blocks cs j))"
    using ps(2) by simp
  then have "length ps + length (held_of j held) = block_count cs j"
    by (simp add: length_class_blocks)
  then show ?thesis using ps(1) by (intro exI[of _ ps]) simp
qed

lemma free_total_zero:
  assumes inv: "pool_inv cs s held"
    and none: "\<forall>j<length cs. m \<le> cs ! j \<longrightarrow> freelist_head_arr s j = 0"
  shows "free_total cs m held = 0"
proof -
  have "block_count cs j - length (held_of j held) = 0"
    if j: "j \<in> {j. j < length cs \<and> m \<le> cs ! j}" for j
  proof -
    have jl: "j < length cs" and h0: "freelist_head_arr s j = 0" using j none by auto
    obtain ps where ps: "free_chain (g_pool_heap s) (freelist_head_arr s j) ps"
       "length ps = block_count cs j - length (held_of j held)"
      using chain_length[OF inv jl] by blast
    have "ps = []" using ps(1) h0 by (cases ps) auto
    then show ?thesis using ps(2) by simp
  qed
  then show ?thesis unfolding free_total_def by (intro sum.neutral) blast
qed

lemma free_total_pop:
  assumes inv: "pool_inv cs s held" and i: "i < length cs" "m \<le> cs ! i"
    and ne: "freelist_head_arr s i \<noteq> 0"
  shows "free_total cs m held = Suc (free_total cs m ((p, i) # held))"
proof -
  let ?S = "{j. j < length cs \<and> m \<le> cs ! j}"
  let ?f = "\<lambda>j. block_count cs j - length (held_of j held)"
  let ?g = "\<lambda>j. block_count cs j - length (held_of j ((p, i) # held))"
  have fin: "finite ?S" by simp
  have iS: "i \<in> ?S" using i by simp
  obtain ps where ps: "free_chain (g_pool_heap s) (freelist_head_arr s i) ps"
       "length ps = ?f i"
    using chain_length[OF inv i(1)] by blast
  have "ps \<noteq> []" using ps(1) ne by (cases ps) auto
  then have "0 < length ps" by simp
  then have fi: "0 < ?f i" by (simp only: ps(2))
  have gi: "?f i = Suc (?g i)" using fi by (simp add: held_of_Cons)
  have rest: "sum ?g (?S - {i}) = sum ?f (?S - {i})"
    by (intro sum.cong) (auto simp: held_of_Cons)
  have "sum ?f ?S = ?f i + sum ?f (?S - {i})" by (rule sum.remove[OF fin iS])
  also have "\<dots> = Suc (?g i + sum ?g (?S - {i}))" using gi rest by simp
  also have "?g i + sum ?g (?S - {i}) = sum ?g ?S" by (rule sum.remove[OF fin iS, symmetric])
  finally show ?thesis by (simp add: free_total_def)
qed

lemma successes_count:
  "pool_inv cs s held \<Longrightarrow> 1 \<le> m \<Longrightarrow> free_total cs m held < fuel \<Longrightarrow>
   successes_before_NULL fuel m s = Some (free_total cs m held)"
proof (induction fuel arbitrary: s held)
  case 0
  then show ?case by simp
next
  case (Suc fuel)
  note inv = Suc.prems(1)
  have nth: "\<forall>j<length cs. sorted_block_size_arr s j = cs ! j"
    and srt: "sorted_wrt (\<ge>) cs" and N: "1 \<le> length cs"
    using inv by (simp_all add: pool_inv_def)
  obtain r s' where mm: "pool_malloc m s = Some (r, s')"
    and c: "case r of
              NULL \<Rightarrow> s' = s \<and> (m = 0 \<or> sorted_block_size_arr s 0 < m \<or>
                         find_partition (length cs) m s = None)
            | Heap p \<Rightarrow> m \<noteq> 0 \<and> m \<le> sorted_block_size_arr s 0 \<and>
                (\<exists>i. find_partition (length cs) m s = Some i \<and> p = freelist_head_arr s i \<and>
                   s' = s\<lparr>freelist_head_arr := (freelist_head_arr s)
                           (i := get_next_freelist_offset (g_pool_heap s) (p - 3))\<rparr> \<and>
                   pool_inv cs s' ((p, i) # held))"
    using pool_inv_malloc[OF inv, of m] by blast
  show ?case
  proof (cases r)
    case NULL
    then have d: "sorted_block_size_arr s 0 < m \<or> find_partition (length cs) m s = None"
      using c Suc.prems(2) by auto
    have "\<forall>j<length cs. m \<le> cs ! j \<longrightarrow> freelist_head_arr s j = 0"
    proof (intro allI impI)
      fix j assume j: "j < length cs" "m \<le> cs ! j"
      have "cs ! j \<le> cs ! 0" using sorted_desc_nth[OF srt, of 0 j] j(1) by simp
      moreover have "sorted_block_size_arr s 0 = cs ! 0"
      proof -
        have "0 < length cs" using N by linarith
        then show ?thesis using nth by blast
      qed
      ultimately have "\<not> sorted_block_size_arr s 0 < m" using j(2) by simp
      then have "find_partition (length cs) m s = None" using d by simp
      then show "freelist_head_arr s j = 0" using j nth by (auto simp: find_partition_None)
    qed
    then have "free_total cs m held = 0" by (rule free_total_zero[OF inv])
    then show ?thesis using mm NULL by simp
  next
    case (Heap p)
    then obtain i where fp: "find_partition (length cs) m s = Some i"
      and inv': "pool_inv cs s' ((p, i) # held)"
      using c by auto
    note F = find_partition_Some[OF fp]
    have il: "i < length cs" and fit: "m \<le> cs ! i" and ne: "freelist_head_arr s i \<noteq> 0"
      using F nth by auto
    have ft: "free_total cs m held = Suc (free_total cs m ((p, i) # held))"
      by (rule free_total_pop[OF inv il fit ne])
    then have "free_total cs m ((p, i) # held) < fuel" using Suc.prems(3) by simp
    then have "successes_before_NULL fuel m s' = Some (free_total cs m ((p, i) # held))"
      by (rule Suc.IH[OF inv' Suc.prems(2)])
    then show ?thesis using mm Heap ft by simp
  qed
qed

lemma pool_init_iff:
  assumes len: "\<forall>xs. bs = Some xs \<longrightarrow> n \<le> length xs"
  shows "\<exists>ok s'. pool_init bs n s = Some (ok, s') \<and>
            (ok \<longleftrightarrow> (\<exists>xs. bs = Some xs \<and> 1 \<le> n \<and> n \<le> 255 \<and>
                      sizes_valid (take n xs) \<and> layout_fits (sort_desc (take n xs))))"
proof (cases "n = 0 \<or> bs = None \<or> 255 < n")
  case True
  then have "pool_init bs n s = Some (False, s)" by (rule pool_init_guard)
  then show ?thesis using True by auto
next
  case False
  then obtain xs where xs: "bs = Some xs" by auto
  have r: "1 \<le> n" "n \<le> 255" "n \<le> length xs" using False xs len by auto
  let ?cs = "qsort qsort_cmp (take n xs)"
  obtain ok s' where res: "pool_init (Some xs) n s = Some (ok, s')"
    using pool_init_unfold[OF r, of s] by (metis surj_pair)
  have iff: "ok \<longleftrightarrow> sizes_valid ?cs \<and> layout_fits ?cs"
    by (rule pool_init_result(1)[OF r res])
  have v: "sizes_valid ?cs = sizes_valid (take n xs)"
    by (rule sizes_valid_mset[OF mset_qsort])
  have "ok \<longleftrightarrow> sizes_valid (take n xs) \<and> layout_fits (sort_desc (take n xs))"
  proof (cases "sizes_valid (take n xs)")
    case True
    then have "?cs = sort_desc (take n xs)"
      by (intro qsort_sort_desc sizes_valid_small)
    then show ?thesis using iff v by simp
  next
    case False
    then show ?thesis using iff v by simp
  qed
  then show ?thesis using res xs r by auto
qed

lemma single_unit_class:
  "sort_desc [Suc 0] = [Suc 0]" "sizes_valid [Suc 0]" "layout_fits [Suc 0]"
  "block_count [Suc 0] 0 = 16384" "fitting_blocks [Suc 0] (Suc 0) = 16384"
proof -
  have p: "partition_bytes_at 0 (Suc 0) (Suc 0) = 65536"
    by (simp add: partition_bytes_at_def)
  show "sort_desc [Suc 0] = [Suc 0]" by (simp add: sort_desc_def)
  show "sizes_valid [Suc 0]" by (simp add: sizes_valid_def)
  show "layout_fits [Suc 0]" using p by (simp add: layout_fits_def partition_bytes_def)
  show b: "block_count [Suc 0] 0 = 16384" using p by (simp add: block_count_def partition_bytes_def)
  show "fitting_blocks [Suc 0] (Suc 0) = 16384" using b by (simp add: fitting_blocks_def)
qed

subsection \<open>The sizes 53360 and 1\<close>

lemma uneven_layout:
  "sort_desc [53360, Suc 0] = [53360, Suc 0]"
  "sizes_valid [53360, Suc 0]"
  "cursor [53360, Suc 0] (Suc 0) = 53363"
  "cursor [53360, Suc 0] (Suc (Suc 0)) = 65535"
  "layout_fits [53360, Suc 0]"
  "block_count [53360, Suc 0] 0 = 1"
  "block_count [53360, Suc 0] (Suc 0) = 3043"
proof -
  have p: "partition_bytes_at 0 (Suc (Suc 0)) 53360 = 53363"
    "partition_bytes_at 53363 (Suc 0) (Suc 0) = 12172"
    by (simp_all add: partition_bytes_at_def numeral_2_eq_2[symmetric])
  show "sort_desc [53360, Suc 0] = [53360, Suc 0]" by (simp add: sort_desc_def)
  show "sizes_valid [53360, Suc 0]" by (simp add: sizes_valid_def)
  show c1: "cursor [53360, Suc 0] (Suc 0) = 53363" by (simp add: p)
  show c2: "cursor [53360, Suc 0] (Suc (Suc 0)) = 65535" by (simp add: p)
  show "layout_fits [53360, Suc 0]"
    using c1 c2 by (simp add: layout_fits_cursor less_Suc_eq del: cursor.simps)
  show "block_count [53360, Suc 0] 0 = 1"
    by (simp add: block_count_def partition_bytes_def p)
  show "block_count [53360, Suc 0] (Suc 0) = 3043"
    using c1 by (simp add: block_count_def partition_bytes_def p del: cursor.simps)
qed

lemma threaded_next:
  "threaded h i start T k \<Longrightarrow> j < k \<Longrightarrow>
   get_next_freelist_offset h (start + j * T) = (if j + 1 < k then start + (j + 1) * T + 3 else 0)"
  unfolding threaded_def by blast

lemma uneven_scenario:
  "\<exists>t1 t2 t3 t4 t5.
     pool_init (Some [53360, 1]) 2 t0 = Some (True, t1) \<and>
     pool_malloc 2 t1 = Some (Heap 3, t2) \<and>
     pool_malloc 1 t2 = Some (Heap (3 + 53363), t3) \<and>
     pool_malloc 1 t3 = Some (Heap (3 + 53367), t4) \<and>
     pool_malloc 1 t4 = Some (Heap (3 + 53371), t5)"
proof -
  let ?cs = "[53360, Suc 0]"
  have "\<forall>xs. Some [53360, 1::nat] = Some xs \<longrightarrow> 2 \<le> length xs" by simp
  from pool_init_iff[OF this, of t0]
  obtain t1 where i: "pool_init (Some [53360, 1]) 2 t0 = Some (True, t1)"
    using uneven_layout by auto
  have tk: "take 2 [53360, 1::nat] = ?cs" by simp
  have inv: "pool_inv ?cs t1 []"
    using pool_init_inv(1)[OF i] by (simp only: tk uneven_layout(1))
  have laid: "\<forall>i<2. freelist_head_arr t1 i = cursor ?cs i + 3 \<and>
           threaded (g_pool_heap t1) i (cursor ?cs i) (?cs ! i + 3) (block_count ?cs i)"
    using pool_init_inv(2)[OF i] by (simp only: tk uneven_layout(1))
  have cnt: "block_size_count_var t1 = 2" and hs: "g_pool_heap_start t1 = Heap 0"
    and s0: "sorted_block_size_arr t1 0 = 53360" and s1: "sorted_block_size_arr t1 (Suc 0) = 1"
    using inv by (simp_all add: pool_inv_def)
  have h0: "freelist_head_arr t1 0 = 3" and h1: "freelist_head_arr t1 (Suc 0) = 53366"
    using laid uneven_layout(3) by (simp_all del: cursor.simps(2))
  have th0: "threaded (g_pool_heap t1) 0 0 53363 1"
    using laid[rule_format, of 0] uneven_layout(6) by simp
  have th1: "threaded (g_pool_heap t1) (Suc 0) 53363 4 3043"
    using laid[rule_format, of "Suc 0"] uneven_layout(3,7) by (simp del: cursor.simps(2))
  let ?h = "g_pool_heap t1"
  have n0: "get_next_freelist_offset ?h 0 = 0"
    using threaded_next[OF th0, of 0] by simp
  have n1: "get_next_freelist_offset ?h 53363 = 53370"
    using threaded_next[OF th1, of 0] by simp
  have n2: "get_next_freelist_offset ?h 53367 = 53374"
    using threaded_next[OF th1, of 1] by simp
  have n3: "get_next_freelist_offset ?h 53371 = 53378"
    using threaded_next[OF th1, of 2] by simp
  define st where "st a b = t1\<lparr>freelist_head_arr := (freelist_head_arr t1)(0 := a, Suc 0 := b)\<rparr>"
    for a b
  have t1: "t1 = st 3 53366"
    using h0 h1 by (simp add: st_def fun_upd_idem)
  have fields: "block_size_count_var (st a b) = 2" "g_pool_heap_start (st a b) = Heap 0"
    "sorted_block_size_arr (st a b) 0 = 53360" "sorted_block_size_arr (st a b) (Suc 0) = 1"
    "freelist_head_arr (st a b) 0 = a" "freelist_head_arr (st a b) (Suc 0) = b"
    "g_pool_heap (st a b) = ?h" for a b
    using cnt hs s0 s1 by (simp_all add: st_def)
  have upd: "(st a b)\<lparr>freelist_head_arr := (freelist_head_arr (st a b))(0 := c)\<rparr> = st c b"
    "(st a b)\<lparr>freelist_head_arr := (freelist_head_arr (st a b))(Suc 0 := c)\<rparr> = st a c"
    for a b c
    by (simp_all add: st_def fun_upd_twist)
  have f0: "find_partition 2 2 (st 3 b) = Some 0" for b
    by (simp add: numeral_2_eq_2 fields)
  have f1: "find_partition 2 1 (st a b) = Some (Suc 0)" if "b \<noteq> 0" for a b
    using that by (simp add: numeral_2_eq_2 fields)
  have m0: "pool_malloc 2 (st 3 53366) = Some (Heap 3, st 0 53366)"
    using pool_malloc_pop[of 2 "st 3 53366" 0] f0 n0 by (simp add: fields upd)
  have m1: "pool_malloc 1 (st 0 53366) = Some (Heap 53366, st 0 53370)"
    using pool_malloc_pop[of 1 "st 0 53366" "Suc 0"] f1[of 53366 0] n1
    by (simp add: fields upd)
  have m2: "pool_malloc 1 (st 0 53370) = Some (Heap 53370, st 0 53374)"
    using pool_malloc_pop[of 1 "st 0 53370" "Suc 0"] f1[of 53370 0] n2
    by (simp add: fields upd)
  have m3: "pool_malloc 1 (st 0 53374) = Some (Heap 53374, st 0 53378)"
    using pool_malloc_pop[of 1 "st 0 53374" "Suc 0"] f1[of 53374 0] n3
    by (simp add: fields upd)
  show ?thesis
    using i m0 m1 m2 m3 unfolding t1[symmetric] 
    by (intro exI[of _ t1] exI[of _ "st 0 53366"] exI[of _ "st 0 53370"]
          exI[of _ "st 0 53374"] exI[of _ "st 0 53378"]) (simp add: t1[symmetric])
qed

section \<open>The claims\<close>

subsection \<open>Allocation before any initialisation\<close>

text \<open>
  C9. Before any call of \<open>pool_init\<close> the static state is all zero, and \<open>pool_malloc(n)\<close>
  returns \<open>NULL\<close> for every \<open>n\<close>, leaving the state as it is: \<open>n = 0\<close> is rejected, and
  every other \<open>n\<close> exceeds \<open>sorted_block_size_arr[0] = 0\<close>.
\<close>

theorem malloc_before_init_returns_NULL:
  "pool_malloc n pool_zero = Some (NULL, pool_zero)"
  by (simp add: pool_malloc_def pool_zero_def)

subsection \<open>What pool\_malloc changes\<close>

text \<open>
  C10. \<open>pool_malloc\<close> never writes a byte of the heap. When it returns \<open>NULL\<close> the
  state is unchanged. When it returns a pointer, the only cell of the state that changes
  is \<open>freelist_head_arr[i]\<close> for the class \<open>i\<close> selected by the scan, which receives the
  \<open>next_freelist_offset\<close> stored in the header of the returned block; every other head,
  every header and every payload byte stay as they are. (\<open>block_size_count_var\<close> is at most
  255 in every state: only \<open>pool_init\<close> assigns it, after its argument check.)
\<close>

theorem malloc_frame:
  assumes "pool_malloc n s = Some (r, s')" and "block_size_count_var s \<le> MAX_BLOCK_SIZE_COUNT"
  shows "g_pool_heap s' = g_pool_heap s \<and>
         (r = NULL \<longrightarrow> s' = s) \<and>
         (\<forall>p. r = Heap p \<longrightarrow>
            (\<exists>i. find_partition (block_size_count_var s) n s = Some i \<and>
               s' = s\<lparr>freelist_head_arr := (freelist_head_arr s)
                       (i := get_next_freelist_offset (g_pool_heap s) (p - 3))\<rparr>))"
proof (cases "n = 0 \<or> sorted_block_size_arr s 0 < n
               \<or> find_partition (block_size_count_var s) n s = None")
  case True
  then have "pool_malloc n s = Some (NULL, s)" by (rule pool_malloc_NULL)
  then show ?thesis using assms(1) by auto
next
  case False
  then obtain i where i: "find_partition (block_size_count_var s) n s = Some i" by auto
  have "i < block_size_count_var s" using find_partition_Some[OF i] by simp
  then have im: "i mod 256 = i" using assms(2) by simp
  show ?thesis
    using assms(1) False i im
    by (auto simp: pool_malloc_def Let_def split: ptr.splits if_splits)
qed

text \<open>The same at the small instance, for a call that pops the block of class 1.\<close>

theorem malloc_frame_witness:
  "pool_malloc 20000 (example_state 3 40006) = Some (Heap 40006, example_state 3 0) \<and>
   block_size_count_var (example_state 3 40006) \<le> MAX_BLOCK_SIZE_COUNT \<and>
   g_pool_heap (example_state 3 0) = g_pool_heap (example_state 3 40006) \<and>
   (\<exists>i. find_partition (block_size_count_var (example_state 3 40006)) 20000
            (example_state 3 40006) = Some i \<and>
        example_state 3 0 = (example_state 3 40006)
          \<lparr>freelist_head_arr := (freelist_head_arr (example_state 3 40006))
             (i := get_next_freelist_offset (g_pool_heap (example_state 3 40006)) (40006 - 3))\<rparr>)"
proof -
  have c: "block_size_count_var (example_state 3 40006) \<le> MAX_BLOCK_SIZE_COUNT"
    by (simp add: example_count)
  show ?thesis
    using malloc_frame[OF example_malloc(1) c] example_malloc(1) c by simp
qed

subsection \<open>The sorted sizes\<close>

text \<open>
  C8. After a successful \<open>pool_init(sizes, count)\<close> the cells
  \<open>sorted_block_size_arr[0 .. count - 1]\<close> hold a permutation of the caller's sizes,
  duplicates kept, in non-increasing order. The comparison function reads the low 32 bits
  of each element as a signed integer; the sizes of a successful call are at most 65533,
  so this comparison orders them correctly.
\<close>

theorem sorted_sizes_descending:
  assumes "pool_init (Some xs) n s0 = Some (True, s1)"
  shows "mset (array_prefix (sorted_block_size_arr s1) n) = mset (take n xs) \<and>
         (\<forall>i j. i < j \<and> j < n \<longrightarrow> sorted_block_size_arr s1 j \<le> sorted_block_size_arr s1 i)"
proof -
  let ?cs = "sort_desc (take n xs)"
  have inv: "pool_inv ?cs s1 []" and len: "length ?cs = n"
    using pool_init_inv[OF assms] by simp_all
  have nth: "\<forall>j<n. sorted_block_size_arr s1 j = ?cs ! j"
    using inv len by (simp add: pool_inv_def)
  have "array_prefix (sorted_block_size_arr s1) n = ?cs"
    by (rule nth_equalityI) (simp_all add: array_prefix_def len nth)
  then have a: "mset (array_prefix (sorted_block_size_arr s1) n) = mset (take n xs)"
    by (simp add: mset_sort_desc)
  have "sorted_wrt (\<ge>) ?cs" by (rule sorted_wrt_sort_desc)
  then have "\<forall>i j. i < j \<and> j < n \<longrightarrow> ?cs ! j \<le> ?cs ! i"
    using len by (simp add: sorted_wrt_iff_nth_less)
  then have "\<forall>i j. i < j \<and> j < n \<longrightarrow> sorted_block_size_arr s1 j \<le> sorted_block_size_arr s1 i"
    using nth by simp
  then show ?thesis using a by blast
qed

text \<open>The same for the sizes 20000 and 40000.\<close>

theorem sorted_sizes_descending_witness:
  "pool_init (Some [20000, 40000]) 2 pool_zero = Some (True, example_state 3 40006) \<and>
   mset (array_prefix (sorted_block_size_arr (example_state 3 40006)) 2) = mset [20000, 40000] \<and>
   sorted_block_size_arr (example_state 3 40006) 1 \<le> sorted_block_size_arr (example_state 3 40006) 0"
proof -
  have "(0::nat) < 1 \<and> (1::nat) < 2" by simp
  then show ?thesis
    using sorted_sizes_descending[OF example_init] example_init by fastforce
qed

subsection \<open>When pool\_init succeeds\<close>

text \<open>
  C3. For a caller's array that holds at least \<open>count\<close> sizes, \<open>pool_init(sizes, count)\<close>
  returns, and it returns true exactly when \<open>sizes\<close> is not null, \<open>count\<close> is between 1
  and 255, every size is between 1 and \<open>HEAP_SIZE - 3 = 65533\<close>, and the layout rule
  applied to the sizes in descending order gives no partition more bytes than remain.
  In particular the single size 65533 is accepted and the single size 65534 is refused.
\<close>

theorem init_contract:
  assumes "\<forall>xs. block_sizes = Some xs \<longrightarrow> n \<le> length xs"
  shows "(\<exists>ok s'. pool_init block_sizes n s = Some (ok, s') \<and>
            (ok \<longleftrightarrow> (\<exists>xs. block_sizes = Some xs \<and> 1 \<le> n \<and> n \<le> MAX_BLOCK_SIZE_COUNT \<and>
                      sizes_valid (take n xs) \<and> layout_fits (sort_desc (take n xs))))) \<and>
         (\<exists>s'. pool_init (Some [65533]) 1 s = Some (True, s')) \<and>
         (\<exists>s'. pool_init (Some [65534]) 1 s = Some (False, s'))"
proof -
  have c1: "cursor [65533] (Suc 0) = 65536"
    by (simp add: partition_bytes_at_def)
  have s1: "sort_desc [65533] = [65533]" "sort_desc [65534] = [65534]"
    by (simp_all add: sort_desc_def)
  have a: "\<exists>s'. pool_init (Some [65533]) 1 s = Some (True, s')"
    using pool_init_iff[of "Some [65533]" 1 s] c1
    by (auto simp add: s1 sizes_valid_def layout_fits_cursor simp del: cursor.simps)
  have b: "\<exists>s'. pool_init (Some [65534]) 1 s = Some (False, s')"
    using pool_init_iff[of "Some [65534]" 1 s]
    by (auto simp add: s1 sizes_valid_def)
  show ?thesis using pool_init_iff[OF assms, of s] a b by blast
qed

text \<open>The same for the sizes 20000 and 40000 on the zero-initialised state.\<close>

theorem init_contract_witness:
  "2 \<le> length [20000, 40000 :: nat] \<and>
   (\<exists>s'. pool_init (Some [20000, 40000]) 2 pool_zero = Some (True, s'))"
proof -
  have h: "\<forall>xs. Some [20000, 40000] = Some xs \<longrightarrow> 2 \<le> length xs" by simp
  show ?thesis using init_contract[OF h, of pool_zero] example_layout by auto
qed

subsection \<open>The contract of pool\_malloc\<close>

text \<open>
  C2. In every state reached from a successful \<open>pool_init\<close> by calls within the contract,
  \<open>pool_malloc(n)\<close> returns. It returns \<open>NULL\<close> exactly when \<open>n = 0\<close>, or \<open>n\<close> exceeds
  \<open>sorted_block_size_arr[0]\<close>, or every class whose block size is at least \<open>n\<close> has the
  head 0. Otherwise it returns the payload pointer at the head of the class \<open>i\<close> found
  first by the scan from the highest index down: its block size is at least \<open>n\<close>, its
  head is not 0, no class of a higher index has both, and no class that has both has a
  smaller block size; the head of class \<open>i\<close> becomes the \<open>next_freelist_offset\<close> stored in
  the header of the returned block.
\<close>

theorem malloc_contract:
  assumes "pool_init (Some xs) n s0 = Some (True, s1)"
    and "run calls (s1, []) = Some (s, held)"
  shows "\<exists>r s'. pool_malloc m s = Some (r, s') \<and>
     (r = NULL \<longleftrightarrow>
        m = 0 \<or> sorted_block_size_arr s 0 < m \<or>
        (\<forall>i<n. m \<le> sorted_block_size_arr s i \<longrightarrow> freelist_head_arr s i = 0)) \<and>
     (r \<noteq> NULL \<longrightarrow>
        (\<exists>i<n. r = Heap (freelist_head_arr s i) \<and>
           m \<le> sorted_block_size_arr s i \<and> freelist_head_arr s i \<noteq> 0 \<and>
           (\<forall>j. i < j \<and> j < n \<longrightarrow>
                \<not> (m \<le> sorted_block_size_arr s j \<and> freelist_head_arr s j \<noteq> 0)) \<and>
           (\<forall>j<n. m \<le> sorted_block_size_arr s j \<and> freelist_head_arr s j \<noteq> 0 \<longrightarrow>
                sorted_block_size_arr s i \<le> sorted_block_size_arr s j) \<and>
           s' = s\<lparr>freelist_head_arr := (freelist_head_arr s)
                   (i := get_next_freelist_offset (g_pool_heap s) (freelist_head_arr s i - 3))\<rparr>))"
proof -
  let ?cs = "sort_desc (take n xs)"
  have inv: "pool_inv ?cs s held" by (rule reachable_inv[OF assms])
  have len: "length ?cs = n" by (rule pool_init_inv(3)[OF assms(1)])
  have nth: "\<forall>j<n. sorted_block_size_arr s j = ?cs ! j"
    and srt: "sorted_wrt (\<ge>) ?cs"
    using inv len by (simp_all add: pool_inv_def)
  obtain r s' where m: "pool_malloc m s = Some (r, s')"
    and c: "case r of
              NULL \<Rightarrow> s' = s \<and> (m = 0 \<or> sorted_block_size_arr s 0 < m \<or>
                         find_partition (length ?cs) m s = None)
            | Heap p \<Rightarrow> m \<noteq> 0 \<and> m \<le> sorted_block_size_arr s 0 \<and>
                (\<exists>i. find_partition (length ?cs) m s = Some i \<and> p = freelist_head_arr s i \<and>
                   s' = s\<lparr>freelist_head_arr := (freelist_head_arr s)
                           (i := get_next_freelist_offset (g_pool_heap s) (p - 3))\<rparr> \<and>
                   pool_inv ?cs s' ((p, i) # held))"
    using pool_inv_malloc[OF inv, of m] by blast
  show ?thesis
  proof (cases r)
    case NULL
    then have "m = 0 \<or> sorted_block_size_arr s 0 < m \<or> find_partition n m s = None"
      using c len by simp
    then have "m = 0 \<or> sorted_block_size_arr s 0 < m \<or>
        (\<forall>i<n. m \<le> sorted_block_size_arr s i \<longrightarrow> freelist_head_arr s i = 0)"
      by (auto simp: find_partition_None)
    then show ?thesis using m NULL by auto
  next
    case (Heap p)
    then obtain i where m0: "m \<noteq> 0" "m \<le> sorted_block_size_arr s 0"
      and fp: "find_partition n m s = Some i" and p: "p = freelist_head_arr s i"
      and s': "s' = s\<lparr>freelist_head_arr := (freelist_head_arr s)
                           (i := get_next_freelist_offset (g_pool_heap s) (p - 3))\<rparr>"
      using c len by auto
    note F = find_partition_Some[OF fp]
    have least: "sorted_block_size_arr s i \<le> sorted_block_size_arr s j"
      if j: "j < n" "m \<le> sorted_block_size_arr s j \<and> freelist_head_arr s j \<noteq> 0" for j
    proof -
      have "j \<le> i" using F j by (meson not_le_imp_less)
      then have "?cs ! i \<le> ?cs ! j" using sorted_desc_nth[OF srt, of j i] F len by simp
      then show ?thesis using nth j(1) F by simp
    qed
    have notnull: "\<not> (m = 0 \<or> sorted_block_size_arr s 0 < m \<or>
        (\<forall>i<n. m \<le> sorted_block_size_arr s i \<longrightarrow> freelist_head_arr s i = 0))"
      using m0 F by auto
    have "\<exists>i<n. r = Heap (freelist_head_arr s i) \<and>
           m \<le> sorted_block_size_arr s i \<and> freelist_head_arr s i \<noteq> 0 \<and>
           (\<forall>j. i < j \<and> j < n \<longrightarrow>
                \<not> (m \<le> sorted_block_size_arr s j \<and> freelist_head_arr s j \<noteq> 0)) \<and>
           (\<forall>j<n. m \<le> sorted_block_size_arr s j \<and> freelist_head_arr s j \<noteq> 0 \<longrightarrow>
                sorted_block_size_arr s i \<le> sorted_block_size_arr s j) \<and>
           s' = s\<lparr>freelist_head_arr := (freelist_head_arr s)
                   (i := get_next_freelist_offset (g_pool_heap s) (freelist_head_arr s i - 3))\<rparr>"
      using F Heap p s' least by (intro exI[of _ i]) auto
    then show ?thesis using m Heap notnull by (intro exI[of _ r] exI[of _ s']) simp
  qed
qed

text \<open>The same at the small instance, after two allocations and one release.\<close>

theorem malloc_contract_witness:
  "pool_init (Some [20000, 40000]) 2 pool_zero = Some (True, example_state 3 40006) \<and>
   run [Malloc 20000, Malloc 20000, Free (Heap 40006)] (example_state 3 40006, [])
     = Some (example_state 0 40006, [(3, 0)]) \<and>
   (\<exists>r s'. pool_malloc 20000 (example_state 0 40006) = Some (r, s') \<and> r = Heap 40006)"
  using malloc_contract[OF example_init example_run, of 20000]
    example_init example_run example_malloc(3) by simp

subsection \<open>Conservation of the blocks of a class\<close>

text \<open>
  C1. After a successful \<open>pool_init(sizes, count)\<close> and any sequence of \<open>pool_malloc\<close>
  and \<open>pool_free\<close> calls within the contract, for every class \<open>i\<close>: the chain of
  \<open>next_freelist_offset\<close> from \<open>freelist_head_arr[i]\<close> ends at 0, and the payload offsets
  on it together with the payload offsets held from class \<open>i\<close> are exactly the payload
  offsets of the blocks of class \<open>i\<close>, each once; no block of another class is on the
  chain. The blocks of class \<open>i\<close> are those the layout rule gives it, and they are the
  chain of class \<open>i\<close> in the state that \<open>pool_init\<close> returned.
\<close>

theorem block_conservation:
  assumes "pool_init (Some xs) n s0 = Some (True, s1)"
    and "run calls (s1, []) = Some (s, held)"
  shows "\<forall>i<n. \<exists>ps.
           free_chain (g_pool_heap s) (freelist_head_arr s i) ps \<and>
           mset ps + mset (held_of i held) = mset (class_blocks (sort_desc (take n xs)) i) \<and>
           distinct (ps @ held_of i held) \<and>
           (\<forall>j<n. j \<noteq> i \<longrightarrow> set ps \<inter> set (class_blocks (sort_desc (take n xs)) j) = {}) \<and>
           free_chain (g_pool_heap s1) (freelist_head_arr s1 i)
             (class_blocks (sort_desc (take n xs)) i)"
proof (intro allI impI)
  fix i assume i: "i < n"
  let ?cs = "sort_desc (take n xs)"
  have inv: "pool_inv ?cs s held" by (rule reachable_inv[OF assms])
  have inv1: "pool_inv ?cs s1 []" by (rule pool_init_inv(1)[OF assms(1)])
  have len: "length ?cs = n" by (rule pool_init_inv(3)[OF assms(1)])
  have sv: "sizes_valid ?cs" using inv by (simp add: pool_inv_def)
  have iL: "i < length ?cs" using i len by simp
  obtain ps where ps: "free_chain (g_pool_heap s) (freelist_head_arr s i) ps"
      "mset ps + mset (held_of i held) = mset (class_blocks ?cs i)"
    using inv iL unfolding pool_inv_def by blast
  note sp = mset_split_distinct[OF ps(2) distinct_class_blocks]
  have d: "distinct (ps @ held_of i held)" using sp by simp
  have other: "\<forall>j<n. j \<noteq> i \<longrightarrow> set ps \<inter> set (class_blocks ?cs j) = {}"
  proof (intro allI impI)
    fix j assume j: "j < n" "j \<noteq> i"
    show "set ps \<inter> set (class_blocks ?cs j) = {}"
    proof (rule ccontr)
      assume "set ps \<inter> set (class_blocks ?cs j) \<noteq> {}"
      then obtain p where p: "p \<in> set ps" "p \<in> set (class_blocks ?cs j)" by auto
      have "p \<in> set (class_blocks ?cs i)" using p(1) sp(4) by auto
      then show False
        using class_blocks_disjoint[OF sv _ _ _ p(2), of i] i j len by auto
    qed
  qed
  have t: "threaded (g_pool_heap s1) i (cursor ?cs i) (?cs ! i + 3) (block_count ?cs i)"
    and h: "freelist_head_arr s1 i = cursor ?cs i + 3"
    using pool_init_inv(2)[OF assms(1)] i by simp_all
  have at_init: "free_chain (g_pool_heap s1) (freelist_head_arr s1 i) (class_blocks ?cs i)"
    unfolding h using t partition_bytes_stride[of ?cs i] by (intro threaded_chain) simp_all
  show "\<exists>ps. free_chain (g_pool_heap s) (freelist_head_arr s i) ps \<and>
           mset ps + mset (held_of i held) = mset (class_blocks ?cs i) \<and>
           distinct (ps @ held_of i held) \<and>
           (\<forall>j<n. j \<noteq> i \<longrightarrow> set ps \<inter> set (class_blocks ?cs j) = {}) \<and>
           free_chain (g_pool_heap s1) (freelist_head_arr s1 i) (class_blocks ?cs i)"
    using ps d other at_init by blast
qed

text \<open>The same at the small instance, after two allocations and one release.\<close>

theorem block_conservation_witness:
  "pool_init (Some [20000, 40000]) 2 pool_zero = Some (True, example_state 3 40006) \<and>
   run [Malloc 20000, Malloc 20000, Free (Heap 40006)] (example_state 3 40006, [])
     = Some (example_state 0 40006, [(3, 0)]) \<and>
   (\<exists>ps. free_chain (g_pool_heap (example_state 0 40006))
            (freelist_head_arr (example_state 0 40006) 0) ps \<and>
         mset ps + mset (held_of 0 [(3, 0)]) = mset [3]) \<and>
   (\<exists>ps. free_chain (g_pool_heap (example_state 0 40006))
            (freelist_head_arr (example_state 0 40006) 1) ps \<and>
         mset ps + mset (held_of 1 [(3, 0)]) = mset [40006])"
proof -
  have s: "sort_desc (take 2 [20000, 40000]) = [40000, 20000]"
    by (simp add: example_layout)
  note C = block_conservation[OF example_init example_run, unfolded s]
  have c0: "\<exists>ps. free_chain (g_pool_heap (example_state 0 40006))
            (freelist_head_arr (example_state 0 40006) 0) ps \<and>
         mset ps + mset (held_of 0 [(3, 0)]) = mset (class_blocks [40000, 20000] 0)"
    using C[rule_format, of 0] by auto
  have c1: "\<exists>ps. free_chain (g_pool_heap (example_state 0 40006))
            (freelist_head_arr (example_state 0 40006) 1) ps \<and>
         mset ps + mset (held_of 1 [(3, 0)]) = mset (class_blocks [40000, 20000] 1)"
    using C[rule_format, of 1] by auto
  show ?thesis
    using c0 c1 example_init example_run example_blocks by simp
qed

subsection \<open>Freeing a block and allocating again\<close>

text \<open>
  C6, as amended. In every state reached from a successful \<open>pool_init\<close> by calls within
  the contract, for every held pointer \<open>p\<close>, popped from class \<open>c\<close>: \<open>pool_free(p)\<close> is
  defined, and a \<open>pool_malloc(m)\<close> that follows it at once returns \<open>p\<close> for every \<open>m\<close>
  that selects class \<open>c\<close>, that is, \<open>m\<close> is at least 1 and at most the block size of
  class \<open>c\<close>, and every class of a higher index whose block size is at least \<open>m\<close> has
  an empty free list.
\<close>

theorem free_then_malloc_returns_block:
  assumes "pool_init (Some xs) n s0 = Some (True, s1)"
    and "run calls (s1, []) = Some (s, held)"
    and "(p, c) \<in> set held"
  shows "\<exists>s'. pool_free (Heap p) s = Some s' \<and>
           (\<forall>m. 1 \<le> m \<and> m \<le> sorted_block_size_arr s c \<and>
                (\<forall>j. c < j \<and> j < n \<and> m \<le> sorted_block_size_arr s j
                     \<longrightarrow> freelist_head_arr s j = 0)
              \<longrightarrow> (\<exists>s''. pool_malloc m s' = Some (Heap p, s'')))"
proof -
  let ?cs = "sort_desc (take n xs)"
  have inv: "pool_inv ?cs s held" by (rule reachable_inv[OF assms(1,2)])
  have len: "length ?cs = n" by (rule pool_init_inv(3)[OF assms(1)])
  obtain s' where fr: "pool_free (Heap p) s = Some s'"
    and s': "s' = s\<lparr>g_pool_heap := set_next_freelist_offset (g_pool_heap s) (p - 3)
                                  (freelist_head_arr s c),
                  freelist_head_arr := (freelist_head_arr s)(c := p)\<rparr>"
    and inv': "pool_inv ?cs s' (remove1 (p, c) held)"
    using pool_inv_free[OF inv assms(3)] by blast
  have cN: "c < n" using inv assms(3) len by (force simp: pool_inv_def)
  have nth: "\<forall>j<n. sorted_block_size_arr s j = ?cs ! j"
    and srt: "sorted_wrt (\<ge>) ?cs" and lf: "layout_fits ?cs" and sv: "sizes_valid ?cs"
    and N: "n \<le> 255"
    using inv len by (simp_all add: pool_inv_def)
  have cnt': "block_size_count_var s' = n" and hs': "g_pool_heap_start s' = Heap 0"
    using inv' len by (simp_all add: pool_inv_def)
  have pin: "p \<in> set (class_blocks ?cs c)"
  proof -
    have cL: "c < length ?cs" using cN len by simp
    obtain ps where "mset ps + mset (held_of c held) = mset (class_blocks ?cs c)"
      using inv cL unfolding pool_inv_def by blast
    then have "set ps \<union> set (held_of c held) = set (class_blocks ?cs c)"
      by (rule mset_split_distinct(4)[OF _ distinct_class_blocks])
    then show ?thesis using held_of_mem[OF assms(3)] by auto
  qed
  have pos: "0 < ?cs ! c" using sv cN len by (auto simp: sizes_valid_nth)
  have pb: "3 \<le> p \<and> p < 65536"
    using class_blocks_bounds[OF lf _ pin pos] cN len by simp
  have "\<exists>s''. pool_malloc m s' = Some (Heap p, s'')"
    if m: "1 \<le> m" "m \<le> sorted_block_size_arr s c"
      "\<forall>j. c < j \<and> j < n \<and> m \<le> sorted_block_size_arr s j \<longrightarrow> freelist_head_arr s j = 0"
    for m
  proof -
    have hd: "freelist_head_arr s' c = p" using s' by simp
    have fp: "find_partition n m s' = Some c"
    proof (rule find_partition_eq_Some[OF cN])
      show "freelist_head_arr s' c \<noteq> 0" using hd pb by simp
      show "m \<le> sorted_block_size_arr s' c" using m(2) s' by simp
      show "\<forall>j. c < j \<and> j < n \<longrightarrow>
              \<not> (freelist_head_arr s' j \<noteq> 0 \<and> m \<le> sorted_block_size_arr s' j)"
        using m(3) s' by auto
    qed
    have "?cs ! c \<le> ?cs ! 0" using sorted_desc_nth[OF srt, of 0 c] cN len by simp
    then have m0: "m \<le> sorted_block_size_arr s' 0" using m(2) nth cN s' by simp
    have "pool_malloc m s' =
         Some (Heap (freelist_head_arr s' c),
               s'\<lparr>freelist_head_arr := (freelist_head_arr s')
                   (c := get_next_freelist_offset (g_pool_heap s') (freelist_head_arr s' c - 3))\<rparr>)"
      using m(1) m0 fp cnt' cN N hs' hd pb by (intro pool_malloc_pop) simp_all
    then show ?thesis using hd by simp
  qed
  then show ?thesis using fr by blast
qed

text \<open>
  The same at the small instance: the block of class 0 is held, and a request of 30000
  bytes selects class 0.
\<close>

theorem free_then_malloc_returns_block_witness:
  "pool_init (Some [20000, 40000]) 2 pool_zero = Some (True, example_state 3 40006) \<and>
   run [Malloc 20000, Malloc 20000, Free (Heap 40006)] (example_state 3 40006, [])
     = Some (example_state 0 40006, [(3, 0)]) \<and>
   (3, 0) \<in> set [(3 :: nat, 0 :: nat)] \<and>
   (\<exists>s'. pool_free (Heap 3) (example_state 0 40006) = Some s' \<and>
         (\<exists>s''. pool_malloc 30000 s' = Some (Heap 3, s'')))"
proof -
  have h: "(3, 0) \<in> set [(3 :: nat, 0 :: nat)]" by simp
  have c: "1 \<le> (30000::nat) \<and> 30000 \<le> sorted_block_size_arr (example_state 0 40006) 0 \<and>
        (\<forall>j. 0 < j \<and> j < 2 \<and> 30000 \<le> sorted_block_size_arr (example_state 0 40006) j
             \<longrightarrow> freelist_head_arr (example_state 0 40006) j = 0)"
    by (auto simp: example_state_def array_store_def less_Suc_eq numeral_2_eq_2)
  show ?thesis
    using free_then_malloc_returns_block[OF example_init example_run h] c
      example_init example_run by auto
qed

text \<open>
  C6 as stated also promises \<open>p\<close> for \<open>m\<close> equal to the size requested when \<open>p\<close> was
  allocated. That fails: with the sizes 20000 and 40000, the second \<open>pool_malloc(20000)\<close>
  returns the block at offset 3 of class 0, because class 1 is empty by then. After the
  first block (offset 40006, class 1) is freed, freeing the block at offset 3 and calling
  \<open>pool_malloc(20000)\<close> returns the block at offset 40006.
\<close>

theorem same_size_after_free_counterexample:
  "pool_init (Some [20000, 40000]) 2 pool_zero = Some (True, example_state 3 40006) \<and>
   run [Malloc 20000] (example_state 3 40006, []) = Some (example_state 3 0, [(40006, 1)]) \<and>
   pool_malloc 20000 (example_state 3 0) = Some (Heap 3, example_state 0 0) \<and>
   run [Malloc 20000, Malloc 20000, Free (Heap 40006)] (example_state 3 40006, [])
     = Some (example_state 0 40006, [(3, 0)]) \<and>
   pool_free (Heap 3) (example_state 0 40006) = Some (example_state 3 40006) \<and>
   pool_malloc 20000 (example_state 3 40006) = Some (Heap 40006, example_state 3 0) \<and>
   Heap 40006 \<noteq> Heap 3"
  by (simp add: example_init example_run example_malloc example_find example_free example_count)

subsection \<open>A failed pool\_init\<close>

text \<open>
  C7 as stated fails: \<open>pool_init\<close> with the sizes 40000 and 30000 returns false after it
  has placed the partition of class 0, and the \<open>pool_malloc(1)\<close> that follows returns the
  block at offset 3.
\<close>

theorem init_failure_counterexample:
  "pool_init (Some [40000, 30000]) 2 pool_zero = Some (False, failed_init_state) \<and>
   pool_malloc 1 failed_init_state
     = Some (Heap 3, failed_init_state\<lparr>freelist_head_arr := (\<lambda>_. 0)\<rparr>) \<and>
   Heap 3 \<noteq> NULL"
  using failed_init_example
  by (simp add: failed_init_state_def pool_malloc_def array_store_def numeral_2_eq_2
        get_next_freelist_offset_def Let_def fun_eq_iff)

text \<open>
  C7, as amended. When \<open>pool_init\<close> returns false on the zero-initialised allocator and
  has placed no partition (\<open>freelist_head_arr[0]\<close> is still 0: the argument check failed, or
  class 0 was refused), every \<open>pool_malloc(n)\<close> that follows returns \<open>NULL\<close> and leaves
  the state as it is.
\<close>

theorem init_failure_before_first_partition:
  assumes "pool_init block_sizes n pool_zero = Some (False, s')"
    and "freelist_head_arr s' 0 = 0"
  shows "pool_malloc m s' = Some (NULL, s')"
proof (cases "n = 0 \<or> block_sizes = None \<or> 255 < n")
  case True
  then have "pool_init block_sizes n pool_zero = Some (False, pool_zero)"
    by (rule pool_init_guard)
  then have "s' = pool_zero" using assms(1) by simp
  then show ?thesis by (simp add: pool_malloc_def pool_zero_def)
next
  case False
  then obtain xs where xs: "block_sizes = Some xs" by auto
  have r: "1 \<le> n" "n \<le> 255" using False by auto
  have len: "n \<le> length xs" using pool_init_not_None[OF _ r] assms(1) xs by blast
  let ?cs = "qsort qsort_cmp (take n xs)"
  let ?s3 = "sorted_state ?cs pool_zero"
  have il: "init_loop 0 n 65536 0 ?s3 = (False, s')"
    using assms(1) xs pool_init_unfold[OF r len, of pool_zero] by simp
  have heads3: "freelist_head_arr ?s3 = (\<lambda>_. 0)"
    by (simp add: sorted_state_def pool_zero_def)
  have n0: "0 < n" using r by simp
  let ?bs = "sorted_block_size_arr ?s3 0"
  let ?ps = "partition_size_of 65536 (n - 0) ?bs"
  have same: "s' = ?s3"
  proof (cases "?bs = 0 \<or> 65533 < ?bs")
    case True
    then show ?thesis using il init_loop_bad_size[OF n0, of ?s3 65536 0] by simp
  next
    case sz: False
    show ?thesis
    proof (cases "65536 < ?ps")
      case True
      then show ?thesis using il init_loop_overrun[OF n0, of 65536 ?s3 0] by simp
    next
      case False
      have st: "init_loop 0 n 65536 0 ?s3 =
         init_loop (0 + 1) n ((65536 + 4294967296 - (0 + ?ps)) mod 4294967296) (0 + ?ps)
           (place_partition 0 0 ?ps ?s3)"
        using n0 sz False by (intro init_loop_step) auto
      have "freelist_head_arr s' 0 = freelist_head_arr (place_partition 0 0 ?ps ?s3) 0"
        using init_loop_frame[OF il[unfolded st]] by simp
      then have "freelist_head_arr s' 0 = 3" by (simp add: place_partition_def)
      then show ?thesis using assms(2) by simp
    qed
  qed
  have "find_partition (block_size_count_var s') m s' = None"
    unfolding find_partition_None using same heads3 by simp
  then show ?thesis by (intro pool_malloc_NULL) simp
qed

text \<open>The same for the single size 65534.\<close>

theorem init_failure_before_first_partition_witness:
  "pool_init (Some [65534]) 1 pool_zero = Some (False, sorted_state [65534] pool_zero) \<and>
   freelist_head_arr (sorted_state [65534] pool_zero) 0 = 0 \<and>
   pool_malloc 1 (sorted_state [65534] pool_zero) = Some (NULL, sorted_state [65534] pool_zero)"
proof -
  have b: "init_loop 0 1 65536 0 (sorted_state [65534] pool_zero)
           = (False, sorted_state [65534] pool_zero)"
    by (intro init_loop_bad_size) (simp_all add: sorted_state_def array_store_def)
  have i: "pool_init (Some [65534]) 1 pool_zero = Some (False, sorted_state [65534] pool_zero)"
    using pool_init_unfold[of 1 "[65534]" pool_zero] b by simp
  have h: "freelist_head_arr (sorted_state [65534] pool_zero) 0 = 0"
    by (simp add: sorted_state_def pool_zero_def)
  show ?thesis using init_failure_before_first_partition[OF i h, of 1] i h by simp
qed

subsection \<open>Exhausting a class\<close>

text \<open>
  C5 as stated fails for a class that is not the only one of the largest size: a request
  that finds its own class empty is served from the next larger class. With the sizes
  20000 and 40000 the class of size 20000 has one block, and two calls
  \<open>pool_malloc(20000)\<close> succeed before the third returns \<open>NULL\<close>.
\<close>

theorem exhaustion_counterexample:
  "pool_init (Some [20000, 40000]) 2 pool_zero = Some (True, example_state 3 40006) \<and>
   sort_desc (take 2 [20000, 40000]) ! 1 = 20000 \<and>
   block_count (sort_desc (take 2 [20000, 40000])) 1 = 1 \<and>
   successes_before_NULL 3 20000 (example_state 3 40006) = Some 2 \<and>
   (2 :: nat) \<noteq> 1"
proof -
  have b: "block_count [40000, 20000] (Suc 0) = 1"
    using example_cursor
    by (simp add: block_count_def partition_bytes_def example_partition_bytes
          del: cursor.simps)
  have "successes_before_NULL (Suc (Suc (Suc 0))) 20000 (example_state 3 40006) = Some 2"
    by (simp add: example_malloc)
  then have s: "successes_before_NULL 3 20000 (example_state 3 40006) = Some 2"
    by (simp only: numeral_3_eq_3[symmetric])
  show ?thesis using example_init b s by (simp add: example_layout)
qed

text \<open>
  C5, as amended. Right after a successful \<open>pool_init\<close>, for every class \<open>i\<close>, the
  number of \<open>pool_malloc(class_size[i])\<close> calls that succeed before the next one returns
  \<open>NULL\<close> is the number of blocks laid out for all classes whose block size is at least
  \<open>class_size[i]\<close>; the calls reach that \<open>NULL\<close> (any fuel above the number is enough).
\<close>

theorem exhaustion_count:
  assumes "pool_init (Some xs) n s0 = Some (True, s1)" and "i < n"
    and "fitting_blocks (sort_desc (take n xs)) (sort_desc (take n xs) ! i) < fuel"
  shows "successes_before_NULL fuel (sort_desc (take n xs) ! i) s1
         = Some (fitting_blocks (sort_desc (take n xs)) (sort_desc (take n xs) ! i))"
proof -
  let ?cs = "sort_desc (take n xs)"
  have inv: "pool_inv ?cs s1 []" by (rule pool_init_inv(1)[OF assms(1)])
  have len: "length ?cs = n" by (rule pool_init_inv(3)[OF assms(1)])
  have "sizes_valid ?cs" using inv by (simp add: pool_inv_def)
  then have m: "1 \<le> ?cs ! i" using assms(2) len by (simp add: sizes_valid_nth)
  show ?thesis
    using successes_count[OF inv m, of fuel] assms(3)
    by (simp add: fitting_blocks_free_total)
qed

text \<open>
  The single class of size 1 has 16384 blocks: 16384 calls \<open>pool_malloc(1)\<close> succeed and
  the next one returns \<open>NULL\<close>.
\<close>

theorem exhaustion_count_witness:
  "\<exists>s1. pool_init (Some [1]) 1 pool_zero = Some (True, s1) \<and> (0::nat) < 1 \<and>
         fitting_blocks (sort_desc (take 1 [1])) (sort_desc (take 1 [1]) ! 0) < 16385 \<and>
         successes_before_NULL 16385 1 s1 = Some 16384"
proof -
  have "\<forall>xs. Some [1::nat] = Some xs \<longrightarrow> 1 \<le> length xs" by simp
  from pool_init_iff[OF this, of pool_zero]
  obtain s1 where i: "pool_init (Some [1]) 1 pool_zero = Some (True, s1)"
    using single_unit_class by auto
  have f: "fitting_blocks (sort_desc (take 1 [1])) (sort_desc (take 1 [1]) ! 0) < 16385"
    by (simp add: single_unit_class)
  have "successes_before_NULL 16385 1 s1 = Some 16384"
    using exhaustion_count[OF i _ f] by (simp add: single_unit_class)
  then show ?thesis using i f by auto
qed

subsection \<open>The layout that pool\_init writes\<close>

text \<open>
  C4. After a successful \<open>pool_init\<close>, for each class \<open>i\<close> of the sizes in descending
  order, with the size \<open>s\<close>, the stride \<open>T = s + 3\<close> and the equal share
  \<open>E = remaining div (N - i)\<close>: the partition has \<open>P = max T (E - E mod T)\<close> bytes from
  the cursor on (the cursor starts at 0 and advances by \<open>P\<close>), it fits into the remaining
  bytes, the head of the class is the cursor plus 3, and the \<open>P div T\<close> headers at stride
  \<open>T\<close> carry the class index and link each block to the next, the last one to 0.
  For the sizes 53360 and 1: the first \<open>pool_malloc(2)\<close> returns the payload offset
  \<open>H = 3\<close>, and the next three \<open>pool_malloc(1)\<close> return \<open>H + 53363\<close>, \<open>H + 53367\<close> and
  \<open>H + 53371\<close>.
\<close>

theorem layout_arithmetic:
  assumes "pool_init (Some xs) n s0 = Some (True, s1)" and "i < n"
  shows "(let cs = sort_desc (take n xs);
              T = cs ! i + 3;
              E = (HEAP_SIZE - cursor cs i) div (n - i);
              P = max T (E - E mod T)
          in sorted_block_size_arr s1 i = cs ! i \<and>
             partition_bytes cs i = P \<and>
             P \<le> HEAP_SIZE - cursor cs i \<and>
             cursor cs (Suc i) = cursor cs i + P \<and>
             freelist_head_arr s1 i = cursor cs i + 3 \<and>
             threaded (g_pool_heap s1) i (cursor cs i) T (P div T)) \<and>
         (\<exists>t1 t2 t3 t4 t5.
             pool_init (Some [53360, 1]) 2 t0 = Some (True, t1) \<and>
             pool_malloc 2 t1 = Some (Heap 3, t2) \<and>
             pool_malloc 1 t2 = Some (Heap (3 + 53363), t3) \<and>
             pool_malloc 1 t3 = Some (Heap (3 + 53367), t4) \<and>
             pool_malloc 1 t4 = Some (Heap (3 + 53371), t5))"
proof -
  let ?cs = "sort_desc (take n xs)"
  let ?T = "?cs ! i + 3"
  let ?E = "(65536 - cursor ?cs i) div (n - i)"
  let ?P = "max ?T (?E - ?E mod ?T)"
  have inv: "pool_inv ?cs s1 []" by (rule pool_init_inv(1)[OF assms(1)])
  have len: "length ?cs = n" by (rule pool_init_inv(3)[OF assms(1)])
  have iL: "i < length ?cs" using assms(2) len by simp
  have P: "partition_bytes ?cs i = ?P"
    by (simp only: partition_bytes_def partition_bytes_at_def Let_def len)
  have srt: "sorted_block_size_arr s1 i = ?cs ! i"
    using inv iL by (simp add: pool_inv_def)
  have "layout_fits ?cs" using inv by (simp add: pool_inv_def)
  then have fit: "partition_bytes ?cs i \<le> 65536 - cursor ?cs i"
    using iL unfolding layout_fits_def by blast
  have cS: "cursor ?cs (Suc i) = cursor ?cs i + partition_bytes ?cs i" by (rule cursor_Suc)
  have hd: "freelist_head_arr s1 i = cursor ?cs i + 3"
    and th: "threaded (g_pool_heap s1) i (cursor ?cs i) ?T (block_count ?cs i)"
    using pool_init_inv(2)[OF assms(1)] assms(2) by simp_all
  have th': "threaded (g_pool_heap s1) i (cursor ?cs i) ?T (?P div ?T)"
    using th by (simp only: block_count_def P)
  have gen: "sorted_block_size_arr s1 i = ?cs ! i \<and>
             partition_bytes ?cs i = ?P \<and> ?P \<le> 65536 - cursor ?cs i \<and>
             cursor ?cs (Suc i) = cursor ?cs i + ?P \<and>
             freelist_head_arr s1 i = cursor ?cs i + 3 \<and>
             threaded (g_pool_heap s1) i (cursor ?cs i) ?T (?P div ?T)"
    using srt P fit cS hd th' by (simp only: simp_thms)
  show ?thesis
    using gen uneven_scenario[of t0] by (simp only: Let_def simp_thms)
qed

text \<open>The general part at the small instance, for class 1.\<close>

theorem layout_arithmetic_witness:
  "pool_init (Some [20000, 40000]) 2 pool_zero = Some (True, example_state 3 40006) \<and>
   (1 :: nat) < 2 \<and>
   sorted_block_size_arr (example_state 3 40006) 1 = 20000 \<and>
   partition_bytes [40000, 20000] 1 = 20003 \<and>
   cursor [40000, 20000] 1 = 40003 \<and>
   freelist_head_arr (example_state 3 40006) 1 = 40003 + 3 \<and>
   get_partition_number (g_pool_heap (example_state 3 40006)) 40003 = 1 \<and>
   get_next_freelist_offset (g_pool_heap (example_state 3 40006)) 40003 = 0"
proof -
  have l: "(1 :: nat) < 2" by simp
  have s: "sort_desc (take 2 [20000, 40000]) = [40000, 20000]"
    by (simp add: example_layout)
  have c: "cursor [40000, 20000] 1 = 40003" using example_cursor(1) by simp
  have p: "partition_bytes [40000, 20000] 1 = 20003"
    using example_cursor(1) by (simp add: partition_bytes_def example_partition_bytes del: cursor.simps)
  note L = layout_arithmetic[OF example_init l, unfolded Let_def s, THEN conjunct1]
  have th: "threaded (g_pool_heap (example_state 3 40006)) 1 40003 20003 1"
    using L c p by (simp del: cursor.simps)
  have "get_partition_number (g_pool_heap (example_state 3 40006)) (40003 + 0 * 20003) = 1"
    "get_next_freelist_offset (g_pool_heap (example_state 3 40006)) (40003 + 0 * 20003) = 0"
    using th unfolding threaded_def by auto
  then show ?thesis using L c p example_init by (simp del: cursor.simps)
qed

end
